theory Spec2Isabelle
  imports Main "HOL-Library.Word"
begin

unbundle bit_operations_syntax

section \<open>The q40boot IDE driver (src/q40/ide.c) and its timer (src/q40hw.c)\<close>

text \<open>
  The driver talks to the disk through memory-mapped registers, reads a tick counter
  that an interrupt advances, prints to the console and keeps a table of the disks it
  found. The model threads one record, the machine, through every function:
  \<^item> a register read takes the next value of a script (what the n-th read of that
    register returns) and is recorded, as every register write is, in \<open>io_trace\<close>;
  \<^item> a read of \<open>timer_ticks\<close> takes the next value of the script \<open>ticks_src\<close>;
  \<^item> \<open>printf\<close> appends a message to \<open>console\<close>;
  \<^item> the polling loop of \<open>gogoboot_disk_wait\<close> may run forever (a clock that stands
    still): it returns an \<open>option\<close>, and \<open>None\<close> is "does not return".
  Memory that the driver reads and writes through pointers (sector buffers, the IDENTIFY
  page, the name buffer) is a function from byte addresses to bytes; the 68k stores the
  high byte of a 16-bit or 32-bit value at the lower address.
\<close>

type_synonym u8 = "8 word"
type_synonym u16 = "16 word"
type_synonym u32 = "32 word"

text \<open>Byte-addressed memory; a pointer is an address.\<close>
type_synonym mem = "nat \<Rightarrow> u8"

subsection \<open>Constants of ide.c\<close>

definition IDE_STATUS_BUSY :: u8 where "IDE_STATUS_BUSY = 0x80"
definition IDE_STATUS_READY :: u8 where "IDE_STATUS_READY = 0x40"
definition IDE_STATUS_DATAREQUEST :: u8 where "IDE_STATUS_DATAREQUEST = 0x08"
definition IDE_STATUS_ERROR :: u8 where "IDE_STATUS_ERROR = 0x01"

definition IDE_CMD_READ_SECTOR :: u8 where "IDE_CMD_READ_SECTOR = 0x20"
definition IDE_CMD_WRITE_SECTOR :: u8 where "IDE_CMD_WRITE_SECTOR = 0x30"
definition IDE_CMD_IDENTIFY :: u8 where "IDE_CMD_IDENTIFY = 0xEC"

definition ATA_ID_PROD :: nat where "ATA_ID_PROD = 2 * 27"
definition ATA_ID_PROD_LEN :: int where "ATA_ID_PROD_LEN = 40"
definition ATA_ID_LBA_CAPACITY :: nat where "ATA_ID_LBA_CAPACITY = 2 * 60"

subsection \<open>Controllers, disks and the machine\<close>

text \<open>
  \<open>disk_controller_t\<close> (disk.h) holds the base I/O address and one pointer per register,
  all set by \<open>gogoboot_disk_controller_init\<close> from the base address. The model keeps the
  base address and names a register by the field that points to it.
\<close>

record disk_controller_t =
  base_io :: u16

datatype reg =
    ctl_reg | altstatus_reg | error_reg | feature_reg | nsect_reg
  | lbal_reg | lbam_reg | lbah_reg | device_reg | status_reg | command_reg | data_reg

type_synonym port = "u16 \<times> reg"

definition regp :: "disk_controller_t \<Rightarrow> reg \<Rightarrow> port" where
  "regp c r = (base_io c, r)"

datatype io_event =
    Rd8 port
  | Wr8 port u8
  | Rd16 port
  | Wr16 port u16

text \<open>What \<open>printf\<close> is called with, one constructor per format string.\<close>

datatype msg =
    IDE_timeout u8
  | Bad_disk int
  | IDE_probe u16 int
  | Bad_disk_slot int
  | No_disk_found
  | Disk_not_responding
  | LBA_not_supported
  | Disk_found "u8 list" u32 u32
  | Max_disks_reached
  | Bad_timer_duration u32

text \<open>
  \<open>disk_t\<close> (disk.h): the fields ide.c assigns. The FatFs work area is owned by
  \<open>f_mount\<close>, which is not part of the driver; the call is recorded in \<open>fs_mounts\<close>.
\<close>

record disk_t =
  ctrl :: disk_controller_t
  disk :: int
  sectors :: u32
  fat_fs_status :: u8

record machine =
  byte_src :: "port \<Rightarrow> nat \<Rightarrow> u8"
  word_src :: "port \<Rightarrow> nat \<Rightarrow> u16"
  reads :: "port \<Rightarrow> nat"
  io_trace :: "io_event list"
  ticks_src :: "nat \<Rightarrow> u32"
  tick_reads :: nat
  console :: "msg list"
  disk_table :: "nat \<Rightarrow> disk_t"
  disk_table_used :: int
  fs_mounts :: "(nat \<times> u8 list) list"
  TIMER_HZ :: u32
  MAX_IDE_DISKS :: int

text \<open>
  \<open>TIMER_HZ\<close> and \<open>MAX_IDE_DISKS\<close> (\<open>FF_VOLUMES\<close>) are build-time constants whose
  headers are not part of the sources; they are fields that no function changes.
\<close>

definition printf :: "msg \<Rightarrow> machine \<Rightarrow> machine" where
  "printf m h = h\<lparr>console := console h @ [m]\<rparr>"

definition read8 :: "port \<Rightarrow> machine \<Rightarrow> u8 \<times> machine" where
  "read8 p h =
     (byte_src h p (reads h p),
      h\<lparr>reads := (reads h)(p := Suc (reads h p)), io_trace := io_trace h @ [Rd8 p]\<rparr>)"

definition write8 :: "port \<Rightarrow> u8 \<Rightarrow> machine \<Rightarrow> machine" where
  "write8 p v h = h\<lparr>io_trace := io_trace h @ [Wr8 p v]\<rparr>"

definition read16 :: "port \<Rightarrow> machine \<Rightarrow> u16 \<times> machine" where
  "read16 p h =
     (word_src h p (reads h p),
      h\<lparr>reads := (reads h)(p := Suc (reads h p)), io_trace := io_trace h @ [Rd16 p]\<rparr>)"

definition write16 :: "port \<Rightarrow> u16 \<Rightarrow> machine \<Rightarrow> machine" where
  "write16 p v h = h\<lparr>io_trace := io_trace h @ [Wr16 p v]\<rparr>"

subsection \<open>The tick timer (q40hw.c)\<close>

definition q40_read_timer_ticks :: "machine \<Rightarrow> u32 \<times> machine" where
  "q40_read_timer_ticks h = (ticks_src h (tick_reads h), h\<lparr>tick_reads := Suc (tick_reads h)\<rparr>)"

definition set_timer_ticks :: "u32 \<Rightarrow> machine \<Rightarrow> u32 \<times> machine" where
  "set_timer_ticks duration_ticks h =
     (let (duration_ticks', h1) =
            (if duration_ticks = 0 then (1, h)
             else if duration_ticks AND 0x80000000 \<noteq> 0
                  then (0x7fffffff, printf (Bad_timer_duration duration_ticks) h)
                  else (duration_ticks, h));
          (now, h2) = q40_read_timer_ticks h1
      in (now + duration_ticks', h2))"

definition timer_expired :: "u32 \<Rightarrow> machine \<Rightarrow> bool \<times> machine" where
  "timer_expired timer h =
     (let (now, h1) = q40_read_timer_ticks h in ((timer - now) AND 0x80000000 \<noteq> 0, h1))"

text \<open>
  Modelled from the spec: \<open>set_timer_sec\<close>, a macro of q40/hw.h, which is not among the
  sources. The spec's wait creates "a deadline 3 seconds in the future" in "monotonic
  ticks": the duration is the number of seconds times the tick rate.
\<close>

definition set_timer_sec :: "u32 \<Rightarrow> machine \<Rightarrow> u32 \<times> machine" where
  "set_timer_sec s h = set_timer_ticks (s * TIMER_HZ h) h"

subsection \<open>gogoboot_disk_wait\<close>

definition wait_success :: "u8 \<Rightarrow> u8 \<Rightarrow> bool" where
  "wait_success bits status \<longleftrightarrow>
     status AND (IDE_STATUS_BUSY OR IDE_STATUS_ERROR OR bits) = bits"

definition wait_error :: "u8 \<Rightarrow> bool" where
  "wait_error status \<longleftrightarrow>
     status AND (IDE_STATUS_BUSY OR IDE_STATUS_ERROR) = IDE_STATUS_ERROR
     \<or> status = 0x00 \<or> status = 0xFF"

text \<open>
  The \<open>do { ... } while(!timer_expired(timeout))\<close> loop and the two statements after it.
  The status is read at the start of every round, so the value printed on a timeout is
  the one read in the last round.
\<close>

partial_function (option) wait_loop ::
  "disk_controller_t \<Rightarrow> u8 \<Rightarrow> u32 \<Rightarrow> machine \<Rightarrow> (bool \<times> machine) option" where
  "wait_loop c bits timeout h =
     (let status = fst (read8 (regp c status_reg) h);
          h1 = snd (read8 (regp c status_reg) h)
      in if wait_success bits status then Some (True, h1)
         else if wait_error status then Some (False, h1)
         else if \<not> fst (timer_expired timeout h1)
              then wait_loop c bits timeout (snd (timer_expired timeout h1))
              else Some (False, printf (IDE_timeout status) (snd (timer_expired timeout h1))))"

definition gogoboot_disk_wait ::
  "disk_controller_t \<Rightarrow> u8 \<Rightarrow> machine \<Rightarrow> (bool \<times> machine) option" where
  "gogoboot_disk_wait c bits h =
     (let (status, h1) = read8 (regp c altstatus_reg) h;
          (timeout, h2) = set_timer_sec 3 h1
      in wait_loop c bits timeout h2)"

subsection \<open>Sector transfer\<close>

definition bswap16 :: "u16 \<Rightarrow> u16" where
  "bswap16 w = push_bit 8 w OR drop_bit 8 w"

text \<open>A \<open>uint16_t\<close> in memory, as the 68k lays it out: high byte first.\<close>

definition load16 :: "mem \<Rightarrow> nat \<Rightarrow> u16" where
  "load16 m a = push_bit 8 (ucast (m a)) OR ucast (m (a + 1))"

definition store16 :: "mem \<Rightarrow> nat \<Rightarrow> u16 \<Rightarrow> mem" where
  "store16 m a w = m(a := ucast (drop_bit 8 w), a + 1 := ucast w)"

text \<open>\<open>for(int i=0; i<256; i++) *(buffer++) = __builtin_bswap16(*ctrl->data_reg);\<close>\<close>

function read_sector_loop ::
  "disk_controller_t \<Rightarrow> nat \<Rightarrow> nat \<Rightarrow> mem \<Rightarrow> machine \<Rightarrow> mem \<times> machine" where
  "read_sector_loop c i buffer m h =
     (if i < 256
      then read_sector_loop c (i + 1) (buffer + 2)
             (store16 m buffer (bswap16 (fst (read16 (regp c data_reg) h))))
             (snd (read16 (regp c data_reg) h))
      else (m, h))"
  by pat_completeness auto
termination
  by (relation "measure (\<lambda>(c, i, buffer, m, h). 256 - i)") auto

declare read_sector_loop.simps [simp del]

definition gogoboot_disk_read_sector_data ::
  "disk_controller_t \<Rightarrow> nat \<Rightarrow> mem \<Rightarrow> machine \<Rightarrow> mem \<times> machine" where
  "gogoboot_disk_read_sector_data c ptr m h = read_sector_loop c 0 ptr m h"

text \<open>\<open>for(int i=0; i<256; i++) *ctrl->data_reg = __builtin_bswap16(*(buffer++));\<close>\<close>

function write_sector_loop ::
  "disk_controller_t \<Rightarrow> nat \<Rightarrow> nat \<Rightarrow> mem \<Rightarrow> machine \<Rightarrow> machine" where
  "write_sector_loop c i buffer m h =
     (if i < 256
      then write_sector_loop c (i + 1) (buffer + 2) m
             (write16 (regp c data_reg) (bswap16 (load16 m buffer)) h)
      else h)"
  by pat_completeness auto
termination
  by (relation "measure (\<lambda>(c, i, buffer, m, h). 256 - i)") auto

declare write_sector_loop.simps [simp del]

definition gogoboot_disk_write_sector_data ::
  "disk_controller_t \<Rightarrow> nat \<Rightarrow> mem \<Rightarrow> machine \<Rightarrow> machine" where
  "gogoboot_disk_write_sector_data c ptr m h = write_sector_loop c 0 ptr m h"

subsection \<open>gogoboot_disk_readwrite\<close>

definition gogoboot_disk_get_disk_count :: "machine \<Rightarrow> int" where
  "gogoboot_disk_get_disk_count h = disk_table_used h"

text \<open>
  The inner loop \<open>while(nsect > 0)\<close>. \<open>nsect\<close> and \<open>sector_count\<close> are C \<open>int\<close>s
  that only count down towards 0, so no overflow can occur and they are modelled as
  \<open>int\<close>. The result is the flag (False: a wait failed and the function returns false),
  the advanced \<open>buff\<close>, the memory and the machine.
\<close>

function transfer_loop ::
  "disk_controller_t \<Rightarrow> bool \<Rightarrow> nat \<Rightarrow> int \<Rightarrow> mem \<Rightarrow> machine
     \<Rightarrow> (bool \<times> nat \<times> mem \<times> machine) option" where
  "transfer_loop c is_write buff nsect m h =
     (if nsect > 0 then
        (case gogoboot_disk_wait c IDE_STATUS_DATAREQUEST h of
           None \<Rightarrow> None
         | Some (ok, h1) \<Rightarrow>
             if \<not> ok then Some (False, buff, m, h1)
             else if is_write
               then transfer_loop c is_write (buff + 512) (nsect - 1) m
                      (gogoboot_disk_write_sector_data c buff m h1)
               else transfer_loop c is_write (buff + 512) (nsect - 1)
                      (fst (gogoboot_disk_read_sector_data c buff m h1))
                      (snd (gogoboot_disk_read_sector_data c buff m h1)))
      else Some (True, buff, m, h))"
  by pat_completeness auto
termination
  by (relation "measure (\<lambda>(c, is_write, buff, nsect, m, h). nat nsect)") auto

declare transfer_loop.simps [simp del]

definition device_select :: "disk_t \<Rightarrow> u32 \<Rightarrow> u8" where
  "device_select d sector =
     ucast ((drop_bit 24 sector AND 0x0F) OR (if disk d = 0 then 0xE0 else 0xF0))"

definition chunk_size :: "int \<Rightarrow> int" where
  "chunk_size sector_count = (if sector_count \<ge> 256 then 256 else sector_count)"

definition nsect_value :: "int \<Rightarrow> u8" where
  "nsect_value nsect = (if nsect = 256 then 0 else word_of_int nsect)"

text \<open>Lines 149 to 164: select the device, program the LBA and the sector count.\<close>

definition program_chunk :: "disk_controller_t \<Rightarrow> disk_t \<Rightarrow> u32 \<Rightarrow> int \<Rightarrow> machine \<Rightarrow> machine" where
  "program_chunk c d sector sector_count h =
     (let h1 = write8 (regp c device_reg) (device_select d sector) h;
          h2 = write8 (regp c lbah_reg) (ucast (drop_bit 16 sector AND 0xFF)) h1;
          h3 = write8 (regp c lbam_reg) (ucast (drop_bit 8 sector AND 0xFF)) h2;
          h4 = write8 (regp c lbal_reg) (ucast (sector AND 0xFF)) h3
      in write8 (regp c nsect_reg) (nsect_value (chunk_size sector_count)) h4)"

text \<open>The outer loop \<open>while(sector_count > 0)\<close>.\<close>

function readwrite_loop ::
  "disk_controller_t \<Rightarrow> disk_t \<Rightarrow> bool \<Rightarrow> nat \<Rightarrow> u32 \<Rightarrow> int \<Rightarrow> mem \<Rightarrow> machine
     \<Rightarrow> (bool \<times> mem \<times> machine) option" where
  "readwrite_loop c d is_write buff sector sector_count m h =
     (if sector_count > 0 then
        (let nsect = chunk_size sector_count;
             h1 = program_chunk c d sector sector_count h
         in case gogoboot_disk_wait c IDE_STATUS_READY h1 of
              None \<Rightarrow> None
            | Some (ok, h2) \<Rightarrow>
                if \<not> ok then Some (False, m, h2)
                else
                  (case transfer_loop c is_write buff nsect m
                          (write8 (regp c command_reg)
                             (if is_write then IDE_CMD_WRITE_SECTOR else IDE_CMD_READ_SECTOR) h2) of
                     None \<Rightarrow> None
                   | Some (ok', buff', m', h3) \<Rightarrow>
                       if \<not> ok' then Some (False, m', h3)
                       else readwrite_loop c d is_write buff'
                              (sector + word_of_int nsect) (sector_count - nsect) m' h3))
      else Some (True, m, h))"
  by pat_completeness auto
termination
  by (relation "measure (\<lambda>(c, d, is_write, buff, sector, sector_count, m, h). nat sector_count)")
     (auto simp: chunk_size_def)

declare readwrite_loop.simps [simp del]

definition gogoboot_disk_readwrite ::
  "int \<Rightarrow> nat \<Rightarrow> u32 \<Rightarrow> int \<Rightarrow> bool \<Rightarrow> mem \<Rightarrow> machine \<Rightarrow> (bool \<times> mem \<times> machine) option" where
  "gogoboot_disk_readwrite disknr buff sector sector_count is_write m h =
     (if disknr < 0 \<or> disknr \<ge> disk_table_used h
      then Some (False, m, printf (Bad_disk disknr) h)
      else
        (let d = disk_table h (nat disknr);
             c = ctrl d
         in readwrite_loop c d is_write buff sector sector_count m h))"

definition gogoboot_disk_read ::
  "int \<Rightarrow> nat \<Rightarrow> u32 \<Rightarrow> int \<Rightarrow> mem \<Rightarrow> machine \<Rightarrow> (bool \<times> mem \<times> machine) option" where
  "gogoboot_disk_read disknr buff sector sector_count m h =
     gogoboot_disk_readwrite disknr buff sector sector_count False m h"

definition gogoboot_disk_write ::
  "int \<Rightarrow> nat \<Rightarrow> u32 \<Rightarrow> int \<Rightarrow> mem \<Rightarrow> machine \<Rightarrow> (bool \<times> mem \<times> machine) option" where
  "gogoboot_disk_write disknr buff sector sector_count m h =
     gogoboot_disk_readwrite disknr buff sector sector_count True m h"

subsection \<open>gogoboot_disk_read_name\<close>

text \<open>
  \<open>ident\<close> (the C parameter \<open>id\<close>) is the IDENTIFY page and \<open>buffer\<close> the caller's character array, each a
  memory of its own indexed from its first byte; \<open>s\<close> is the index that the C pointer
  \<open>s\<close> has reached. \<open>len\<close> and \<open>rem\<close> are C \<open>int\<close>s.
\<close>

function name_copy_loop :: "mem \<Rightarrow> mem \<Rightarrow> nat \<Rightarrow> nat \<Rightarrow> int \<Rightarrow> mem \<times> nat" where
  "name_copy_loop ident buffer s offset rem =
     (if rem > 0
      then name_copy_loop ident (buffer(s := ident (offset + 1), s + 1 := ident offset))
             (s + 2) (offset + 2) (rem - 2)
      else (buffer, s))"
  by pat_completeness auto
termination
  by (relation "measure (\<lambda>(ident, buffer, s, offset, rem). nat rem)") auto

declare name_copy_loop.simps [simp del]

text \<open>\<open>strlen\<close>: the index of the first NUL at or after \<open>i\<close>; it searches without bound.\<close>

partial_function (option) strlen_from :: "mem \<Rightarrow> nat \<Rightarrow> nat option" where
  "strlen_from buffer i = (if buffer i = 0 then Some i else strlen_from buffer (Suc i))"

text \<open>\<open>while(s > buffer && s[-1] == ' ') s--;\<close>\<close>

function rtrim_loop :: "mem \<Rightarrow> nat \<Rightarrow> nat" where
  "rtrim_loop buffer s =
     (if s > 0 \<and> buffer (s - 1) = 0x20 then rtrim_loop buffer (s - 1) else s)"
  by pat_completeness auto
termination
  by (relation "measure (\<lambda>(buffer, s). s)") auto

declare rtrim_loop.simps [simp del]

definition gogoboot_disk_read_name :: "mem \<Rightarrow> mem \<Rightarrow> nat \<Rightarrow> int \<Rightarrow> mem option" where
  "gogoboot_disk_read_name ident buffer offset len =
     (let (buffer1, s) = name_copy_loop ident buffer 0 offset len;
          buffer2 = buffer1(s := 0)
      in case strlen_from buffer2 0 of
           None \<Rightarrow> None
         | Some n \<Rightarrow> Some (buffer2(rtrim_loop buffer2 n := 0)))"

subsection \<open>gogoboot_disk_table_init\<close>

text \<open>
  Modelled from the spec: \<open>STA_NOINIT\<close>, a constant of FatFs (diskio.h), which is not
  among the sources. The spec has the new entry marked "unmounted"; FatFs's value for
  the flag is 0x01.
\<close>

definition STA_NOINIT :: u8 where "STA_NOINIT = 0x01"

text \<open>
  Modelled from the spec: \<open>le32_to_cpu\<close>, a macro that is not among the sources. The
  spec has a "32-bit little-endian capacity field", so
  \<open>le32_to_cpu(*((uint32_t*)&buffer[a]))\<close> is the four bytes at \<open>a\<close> read as a
  little-endian number.
\<close>

definition le32_at :: "mem \<Rightarrow> nat \<Rightarrow> u32" where
  "le32_at m a =
     ucast (m a) OR push_bit 8 (ucast (m (a + 1))) OR push_bit 16 (ucast (m (a + 2)))
       OR push_bit 24 (ucast (m (a + 3)))"

text \<open>The characters that \<open>printf("%s")\<close> prints: those before the first NUL.\<close>

definition c_string :: "mem \<Rightarrow> u8 list option" where
  "c_string m = (case strlen_from m 0 of None \<Rightarrow> None | Some n \<Rightarrow> Some (map m [0..<n]))"

text \<open>
  The local arrays \<open>buffer[512]\<close> and \<open>prod[41]\<close> start as zeroes here: every byte of
  them that is read has been written before.
\<close>

definition zero_mem :: mem where
  "zero_mem a = 0"

definition register_disk :: "disk_controller_t \<Rightarrow> int \<Rightarrow> u32 \<Rightarrow> machine \<Rightarrow> machine" where
  "register_disk c dsk nsectors h =
     (if disk_table_used h \<ge> MAX_IDE_DISKS h then printf Max_disks_reached h
      else
        (let n = nat (disk_table_used h);
             path = [0x30 + word_of_int (disk_table_used h), 0x3A]
         in h\<lparr>disk_table := (disk_table h)
                  (n := (disk_table h n)\<lparr>ctrl := c, disk := dsk, sectors := nsectors,
                                          fat_fs_status := STA_NOINIT\<rparr>),
               fs_mounts := fs_mounts h @ [(n, path)],
               disk_table_used := disk_table_used h + 1\<rparr>))"

definition gogoboot_disk_table_init :: "disk_controller_t \<Rightarrow> int \<Rightarrow> machine \<Rightarrow> machine option" where
  "gogoboot_disk_table_init c dsk h =
     (let h0 = printf (IDE_probe (base_io c) dsk) h
      in if dsk \<noteq> 0 \<and> dsk \<noteq> 1 then Some (printf (Bad_disk_slot dsk) h0)
         else
           (let sel = (if dsk = 0 then 0xE0 else 0xF0);
                h1 = write8 (regp c device_reg) sel h0
            in case gogoboot_disk_wait c IDE_STATUS_READY h1 of
                 None \<Rightarrow> None
               | Some (ok, h2) \<Rightarrow>
                   if \<not> ok then Some (printf No_disk_found h2)
                   else
                     (case gogoboot_disk_wait c IDE_STATUS_DATAREQUEST
                             (write8 (regp c command_reg) IDE_CMD_IDENTIFY h2) of
                        None \<Rightarrow> None
                      | Some (ok', h3) \<Rightarrow>
                          if \<not> ok' then Some (printf Disk_not_responding h3)
                          else
                            (let (buffer, h4) = gogoboot_disk_read_sector_data c 0 zero_mem h3
                             in if buffer 99 AND 0x02 = 0 then Some (printf LBA_not_supported h4)
                                else
                                  (let nsectors = le32_at buffer ATA_ID_LBA_CAPACITY
                                   in case gogoboot_disk_read_name buffer zero_mem
                                             ATA_ID_PROD ATA_ID_PROD_LEN of
                                        None \<Rightarrow> None
                                      | Some prod_name \<Rightarrow>
                                          (case c_string prod_name of
                                             None \<Rightarrow> None
                                           | Some name \<Rightarrow>
                                               Some (register_disk c dsk nsectors
                                                 (printf (Disk_found name nsectors
                                                    (drop_bit 11 nsectors)) h4))))))))"

section \<open>Notions used to state the properties\<close>

subsection \<open>Polling\<close>

text \<open>
  The machine after \<open>n\<close> further reads of the status register of controller \<open>c\<close> and
  \<open>m\<close> further reads of the tick counter, and the values those reads return.
\<close>

definition after_polls :: "disk_controller_t \<Rightarrow> nat \<Rightarrow> nat \<Rightarrow> machine \<Rightarrow> machine" where
  "after_polls c n m h =
     h\<lparr>reads := (reads h)(regp c status_reg := reads h (regp c status_reg) + n),
       io_trace := io_trace h @ replicate n (Rd8 (regp c status_reg)),
       tick_reads := tick_reads h + m\<rparr>"

definition status_at :: "disk_controller_t \<Rightarrow> machine \<Rightarrow> nat \<Rightarrow> u8" where
  "status_at c h j = byte_src h (regp c status_reg) (reads h (regp c status_reg) + j)"

definition ticks_at :: "machine \<Rightarrow> nat \<Rightarrow> u32" where
  "ticks_at h j = ticks_src h (tick_reads h + j)"

definition expired_at :: "u32 \<Rightarrow> machine \<Rightarrow> nat \<Rightarrow> bool" where
  "expired_at t h j \<longleftrightarrow> (t - ticks_at h j) AND 0x80000000 \<noteq> 0"

definition decided_at :: "disk_controller_t \<Rightarrow> u8 \<Rightarrow> u32 \<Rightarrow> machine \<Rightarrow> nat \<Rightarrow> bool" where
  "decided_at c bits t h k \<longleftrightarrow>
     wait_success bits (status_at c h k) \<or> wait_error (status_at c h k) \<or> expired_at t h k"

definition wait_result_at ::
  "disk_controller_t \<Rightarrow> u8 \<Rightarrow> machine \<Rightarrow> nat \<Rightarrow> bool \<times> machine" where
  "wait_result_at c bits h k =
     (if wait_success bits (status_at c h k) then (True, after_polls c (Suc k) k h)
      else if wait_error (status_at c h k) then (False, after_polls c (Suc k) k h)
      else (False, printf (IDE_timeout (status_at c h k)) (after_polls c (Suc k) (Suc k) h)))"

subsection \<open>Machines and scripts for examples\<close>

text \<open>
  A machine for examples: one controller at 0x1f0, every read of a byte register
  answered from \<open>st\<close>, every read of the data register from \<open>dat\<close>, the tick counter
  from \<open>tk\<close>, \<open>used\<close> disks registered (all on that controller, the first as device 0,
  the others as device 1), 200 ticks per second and room for four disks.
\<close>

definition mock :: "(nat \<Rightarrow> u8) \<Rightarrow> (nat \<Rightarrow> u16) \<Rightarrow> (nat \<Rightarrow> u32) \<Rightarrow> int \<Rightarrow> machine" where
  "mock st dat tk used =
     \<lparr>byte_src = (\<lambda>p. st), word_src = (\<lambda>p. dat), reads = (\<lambda>p. 0), io_trace = [],
      ticks_src = tk, tick_reads = 0, console = [],
      disk_table = (\<lambda>n. \<lparr>ctrl = \<lparr>base_io = 0x1f0\<rparr>, disk = (if n = 0 then 0 else 1),
                             sectors = 0x100000, fat_fs_status = STA_NOINIT\<rparr>),
      disk_table_used = used, fs_mounts = [], TIMER_HZ = 200, MAX_IDE_DISKS = 4\<rparr>"

subsection \<open>The start of a wait\<close>

text \<open>
  What \<open>gogoboot_disk_wait\<close> does before it polls: the deadline it computes and the
  machine in which the first status read happens.
\<close>

definition wait_entry :: "disk_controller_t \<Rightarrow> machine \<Rightarrow> u32 \<times> machine" where
  "wait_entry c h = set_timer_sec 3 (snd (read8 (regp c altstatus_reg) h))"

definition wait_deadline :: "disk_controller_t \<Rightarrow> machine \<Rightarrow> u32" where
  "wait_deadline c h = fst (wait_entry c h)"

definition poll_start :: "disk_controller_t \<Rightarrow> machine \<Rightarrow> machine" where
  "poll_start c h = snd (wait_entry c h)"

subsection \<open>Scripts\<close>

text \<open>Scripts for examples: a list of values and then one value for ever; a clock.\<close>

definition script :: "'a list \<Rightarrow> 'a \<Rightarrow> nat \<Rightarrow> 'a" where
  "script xs d n = (if n < length xs then xs ! n else d)"

definition clock_every :: "nat \<Rightarrow> nat \<Rightarrow> u32" where
  "clock_every step n = of_nat (step * n)"

definition no_data :: "nat \<Rightarrow> u16" where
  "no_data n = 0"

definition ide0 :: disk_controller_t where
  "ide0 = \<lparr>base_io = 0x1f0\<rparr>"

subsection \<open>Sector images\<close>

text \<open>
  The \<open>j\<close>-th word that the data register of controller \<open>c\<close> returns from machine \<open>h\<close>
  on, and the memory after \<open>n\<close> words read from there have been stored from address
  \<open>buffer\<close> upwards with their bytes exchanged: the low byte of each word at the even
  offset, its high byte at the odd offset that follows.
\<close>

definition data_word :: "disk_controller_t \<Rightarrow> machine \<Rightarrow> nat \<Rightarrow> u16" where
  "data_word c h j = word_src h (regp c data_reg) (reads h (regp c data_reg) + j)"

definition read_image :: "disk_controller_t \<Rightarrow> machine \<Rightarrow> nat \<Rightarrow> mem \<Rightarrow> nat \<Rightarrow> mem" where
  "read_image c h buffer m n a =
     (if buffer \<le> a \<and> a < buffer + 2 * n
      then (if even (a - buffer)
            then ucast (data_word c h ((a - buffer) div 2))
            else ucast (drop_bit 8 (data_word c h ((a - buffer) div 2))))
      else m a)"

definition after_data_reads :: "disk_controller_t \<Rightarrow> nat \<Rightarrow> machine \<Rightarrow> machine" where
  "after_data_reads c n h =
     h\<lparr>reads := (reads h)(regp c data_reg := reads h (regp c data_reg) + n),
       io_trace := io_trace h @ replicate n (Rd16 (regp c data_reg))\<rparr>"

text \<open>
  The word that has the byte at address \<open>a\<close> as its low byte and the byte at \<open>a + 1\<close>
  as its high byte: the 68k's word at \<open>a\<close> with its two bytes exchanged. The writes of
  \<open>n\<close> such words, taken from \<open>buffer\<close> upwards, to the data register.
\<close>

definition exchanged_word :: "mem \<Rightarrow> nat \<Rightarrow> u16" where
  "exchanged_word m a = push_bit 8 (ucast (m (a + 1))) OR ucast (m a)"

definition data_writes :: "disk_controller_t \<Rightarrow> mem \<Rightarrow> nat \<Rightarrow> nat \<Rightarrow> io_event list" where
  "data_writes c m buffer n =
     map (\<lambda>j. Wr16 (regp c data_reg) (exchanged_word m (buffer + 2 * j))) [0..<n]"

text \<open>A memory with a recognisable pattern, and the words a device that stored it returns.\<close>

definition pattern_mem :: mem where
  "pattern_mem a = of_nat (7 * a + 3)"

definition pattern_words :: "nat \<Rightarrow> u16" where
  "pattern_words j = exchanged_word pattern_mem (2 * j)"

subsection \<open>Decoded names\<close>

text \<open>
  The spec's words for \<open>gogoboot_disk_read_name\<close>: the field read in pairs as (second
  byte, first byte), and a string without its trailing spaces.
\<close>

fun decode_pairs :: "mem \<Rightarrow> nat \<Rightarrow> nat \<Rightarrow> u8 list" where
  "decode_pairs ident offset 0 = []"
| "decode_pairs ident offset (Suc n) =
     ident (offset + 1) # ident offset # decode_pairs ident (offset + 2) n"

definition strip_trailing_spaces :: "u8 list \<Rightarrow> u8 list" where
  "strip_trailing_spaces xs = rev (dropWhile (\<lambda>ch. ch = 0x20) (rev xs))"

text \<open>
  An IDENTIFY page for examples: spaces everywhere but for the 14 bytes from
  \<open>ATA_ID_PROD\<close> on, which hold "SAMPLE DISK   " with the bytes of every pair swapped.
\<close>

definition sample_page :: mem where
  "sample_page a =
     (if 54 \<le> a \<and> a < 68 then of_char (''ASPMELD SI K  '' ! (a - 54)) else 0x20)"

subsection \<open>Register writes and chunks\<close>

text \<open>The values written to a byte register, in order, as the trace records them.\<close>

fun writes_to :: "port \<Rightarrow> io_event list \<Rightarrow> u8 list" where
  "writes_to p [] = []"
| "writes_to p (Wr8 q v # es) = (if q = p then v # writes_to p es else writes_to p es)"
| "writes_to p (e # es) = writes_to p es"

text \<open>
  The spec's decomposition of a request: while sectors remain, a chunk of
  \<open>min(remaining, 256)\<close> sectors at the current sector, then \<open>remaining -= chunk\<close> and
  \<open>sector += chunk\<close>. The sector is a \<open>uint32_t\<close> and wraps as one.
\<close>

function chunks :: "u32 \<Rightarrow> int \<Rightarrow> (u32 \<times> int) list" where
  "chunks sector remaining =
     (if remaining > 0
      then (sector, min remaining 256)
             # chunks (sector + word_of_int (min remaining 256)) (remaining - min remaining 256)
      else [])"
  by pat_completeness auto
termination
  by (relation "measure (\<lambda>(sector, remaining). nat remaining)") auto

declare chunks.simps [simp del]

text \<open>What programming one chunk writes to each register (nothing to the others).\<close>

fun chunk_writes :: "disk_t \<Rightarrow> reg \<Rightarrow> u32 \<times> int \<Rightarrow> u8 list" where
  "chunk_writes d device_reg (s, k) = [device_select d s]"
| "chunk_writes d lbah_reg (s, k) = [ucast (drop_bit 16 s AND 0xFF)]"
| "chunk_writes d lbam_reg (s, k) = [ucast (drop_bit 8 s AND 0xFF)]"
| "chunk_writes d lbal_reg (s, k) = [ucast (s AND 0xFF)]"
| "chunk_writes d nsect_reg (s, k) = [nsect_value k]"
| "chunk_writes d r (s, k) = []"

definition rw_command :: "bool \<Rightarrow> u8" where
  "rw_command is_write = (if is_write then IDE_CMD_WRITE_SECTOR else IDE_CMD_READ_SECTOR)"


text \<open>
  The register writes between two machines are those of programming the first \<open>j\<close>
  chunks of \<open>cs\<close>, and \<open>j'\<close> read or write commands.
\<close>

definition trace_grows ::
  "disk_controller_t \<Rightarrow> disk_t \<Rightarrow> bool \<Rightarrow> (u32 \<times> int) list \<Rightarrow> nat \<Rightarrow> nat \<Rightarrow> machine \<Rightarrow> machine \<Rightarrow> bool" where
  "trace_grows c d w cs j j' h h' \<longleftrightarrow>
     (\<forall>r. writes_to (regp c r) (io_trace h')
            = writes_to (regp c r) (io_trace h) @ concat (map (chunk_writes d r) (take j cs))
                @ (if r = command_reg then replicate j' (rw_command w) else []))"

text \<open>A device whose status, whenever read, passes both tests the driver waits for.\<close>

definition always_ready :: "disk_controller_t \<Rightarrow> machine \<Rightarrow> bool" where
  "always_ready c h \<longleftrightarrow>
     (\<forall>j. wait_success IDE_STATUS_READY (status_at c h j)
        \<and> wait_success IDE_STATUS_DATAREQUEST (status_at c h j))"

subsection \<open>The steps of a transfer\<close>

text \<open>
  The spec's procedure for a transfer, as a list of steps: for every chunk of the request,
  program the registers, wait for READY, issue the command, and then for every sector of
  the chunk wait for DATAREQUEST and move the sector. A step is carried out on the buffer
  pointer, the memory and the machine; only a wait can fail. \<open>run_steps\<close> carries out
  a list of steps in order and stops after the first step that fails.
\<close>

datatype step = Program u32 int | WaitFor u8 | Command | Sector

fun do_step ::
  "disk_controller_t \<Rightarrow> disk_t \<Rightarrow> bool \<Rightarrow> step \<Rightarrow> nat \<times> mem \<times> machine
     \<Rightarrow> (bool \<times> nat \<times> mem \<times> machine) option" where
  "do_step c d w (Program s k) (b, m, h) = Some (True, b, m, program_chunk c d s k h)"
| "do_step c d w (WaitFor bits) (b, m, h) =
     (case gogoboot_disk_wait c bits h of
        None \<Rightarrow> None
      | Some (ok, h') \<Rightarrow> Some (ok, b, m, h'))"
| "do_step c d w Command (b, m, h) =
     Some (True, b, m, write8 (regp c command_reg) (rw_command w) h)"
| "do_step c d w Sector (b, m, h) =
     (if w then Some (True, b + 512, m, gogoboot_disk_write_sector_data c b m h)
      else Some (True, b + 512, fst (gogoboot_disk_read_sector_data c b m h),
                 snd (gogoboot_disk_read_sector_data c b m h)))"

fun run_steps ::
  "disk_controller_t \<Rightarrow> disk_t \<Rightarrow> bool \<Rightarrow> step list \<Rightarrow> nat \<times> mem \<times> machine
     \<Rightarrow> (bool \<times> nat \<times> mem \<times> machine) option" where
  "run_steps c d w [] st = Some (True, st)"
| "run_steps c d w (x # xs) st =
     (case do_step c d w x st of
        None \<Rightarrow> None
      | Some (ok, st') \<Rightarrow> if ok then run_steps c d w xs st' else Some (False, st'))"

definition sector_steps :: "int \<Rightarrow> step list" where
  "sector_steps k = concat (replicate (nat k) [WaitFor IDE_STATUS_DATAREQUEST, Sector])"

definition chunk_steps :: "u32 \<times> int \<Rightarrow> step list" where
  "chunk_steps ch =
     Program (fst ch) (snd ch) # WaitFor IDE_STATUS_READY # Command # sector_steps (snd ch)"

definition request_steps :: "u32 \<Rightarrow> int \<Rightarrow> step list" where
  "request_steps start N = concat (map chunk_steps (chunks start N))"

text \<open>
  The number of accesses to the data register that the trace records: 256 for every
  sector moved.
\<close>

fun is_data_access :: "port \<Rightarrow> io_event \<Rightarrow> bool" where
  "is_data_access p (Rd16 q) = (q = p)"
| "is_data_access p (Wr16 q v) = (q = p)"
| "is_data_access p e = False"

definition data_accesses :: "disk_controller_t \<Rightarrow> machine \<Rightarrow> nat" where
  "data_accesses c h = length (filter (is_data_access (regp c data_reg)) (io_trace h))"

subsection \<open>A clock that runs\<close>

text \<open>
  The tick counter keeps advancing: whenever a wait starts, at whatever read of the
  counter, some later read finds its deadline passed. On such a machine every wait
  returns.
\<close>

definition clock_runs :: "disk_controller_t \<Rightarrow> machine \<Rightarrow> bool" where
  "clock_runs c h \<longleftrightarrow>
     (\<forall>n. \<exists>k. expired_at (wait_deadline c (h\<lparr>tick_reads := n\<rparr>))
                  (poll_start c (h\<lparr>tick_reads := n\<rparr>)) k)"

subsection \<open>What a call programmed\<close>





section \<open>Properties\<close>

subsection \<open>Requests that touch no hardware\<close>

text \<open>
  C8. For a disk index outside \<open>0 \<le> index < gogoboot_disk_get_disk_count\<close> (negative, equal
  to the count, or larger), \<open>gogoboot_disk_read\<close> and \<open>gogoboot_disk_write\<close> return false
  and access no register: the memory is unchanged, and the machine differs from the one
  before the call only by the "bad disk" line on the console, so the trace of register
  accesses and the number of reads of every register are the same.
\<close>

theorem bad_index_no_register_access:
  assumes "disknr < 0 \<or> disknr \<ge> gogoboot_disk_get_disk_count h"
  shows "gogoboot_disk_read disknr buff sector sector_count m h
           = Some (False, m, h\<lparr>console := console h @ [Bad_disk disknr]\<rparr>)
         \<and> gogoboot_disk_write disknr buff sector sector_count m h
           = Some (False, m, h\<lparr>console := console h @ [Bad_disk disknr]\<rparr>)
         \<and> io_trace (h\<lparr>console := console h @ [Bad_disk disknr]\<rparr>) = io_trace h
         \<and> reads (h\<lparr>console := console h @ [Bad_disk disknr]\<rparr>) = reads h"
  using assms
  by (simp add: gogoboot_disk_read_def gogoboot_disk_write_def gogoboot_disk_readwrite_def
      gogoboot_disk_get_disk_count_def printf_def)

theorem bad_index_no_register_access_witness:
  "gogoboot_disk_get_disk_count (mock (script [] 0x50) no_data (clock_every 1) 2) = 2
   \<and> gogoboot_disk_read 2 0 0 1 zero_mem (mock (script [] 0x50) no_data (clock_every 1) 2)
       = Some (False, zero_mem,
           (mock (script [] 0x50) no_data (clock_every 1) 2)\<lparr>console := [Bad_disk 2]\<rparr>)
   \<and> gogoboot_disk_write (- 1) 0 0 1 zero_mem (mock (script [] 0x50) no_data (clock_every 1) 2)
       = Some (False, zero_mem,
           (mock (script [] 0x50) no_data (clock_every 1) 2)\<lparr>console := [Bad_disk (- 1)]\<rparr>)
   \<and> io_trace ((mock (script [] 0x50) no_data (clock_every 1) 2)\<lparr>console := [Bad_disk 2]\<rparr>) = []"
  using bad_index_no_register_access
          [of 2 "mock (script [] 0x50) no_data (clock_every 1) 2" 0 0 1 zero_mem]
        bad_index_no_register_access
          [of "- 1" "mock (script [] 0x50) no_data (clock_every 1) 2" 0 0 1 zero_mem]
  by (simp add: gogoboot_disk_get_disk_count_def mock_def)

text \<open>
  C10. For a valid disk index and a sector count that is zero or negative,
  \<open>gogoboot_disk_readwrite\<close> returns true at once: the loop is not entered, and the
  memory and the whole machine (trace of register accesses, read counts, console) are
  exactly as before the call.
\<close>

theorem nonpositive_count_returns_true:
  assumes "0 \<le> disknr" and "disknr < gogoboot_disk_get_disk_count h" and "sector_count \<le> 0"
  shows "gogoboot_disk_readwrite disknr buff sector sector_count is_write m h = Some (True, m, h)"
  using assms
  by (simp add: gogoboot_disk_readwrite_def gogoboot_disk_get_disk_count_def readwrite_loop.simps)

theorem nonpositive_count_returns_true_witness:
  "gogoboot_disk_readwrite 1 0 7 0 False zero_mem (mock (script [] 0x50) no_data (clock_every 1) 2)
     = Some (True, zero_mem, mock (script [] 0x50) no_data (clock_every 1) 2)
   \<and> gogoboot_disk_readwrite 0 0 7 (- 5) True zero_mem (mock (script [] 0x50) no_data (clock_every 1) 2)
     = Some (True, zero_mem, mock (script [] 0x50) no_data (clock_every 1) 2)"
  using nonpositive_count_returns_true
          [of 1 "mock (script [] 0x50) no_data (clock_every 1) 2" 0 0 7 False zero_mem]
        nonpositive_count_returns_true
          [of 0 "mock (script [] 0x50) no_data (clock_every 1) 2" "- 5" 0 7 True zero_mem]
  by (simp add: gogoboot_disk_get_disk_count_def mock_def)

subsection \<open>The polling loop\<close>

lemma after_polls_0: "after_polls c 0 0 h = h"
  by (simp add: after_polls_def)

lemma after_polls_add:
  "after_polls c n m (after_polls c n' m' h) = after_polls c (n' + n) (m' + m) h"
  by (simp add: after_polls_def replicate_add add.assoc)

lemma round_state:
  "snd (timer_expired t (snd (read8 (regp c status_reg) h))) = after_polls c (Suc 0) (Suc 0) h"
  by (simp add: timer_expired_def read8_def q40_read_timer_ticks_def after_polls_def)

lemma round_expired:
  "fst (timer_expired t (snd (read8 (regp c status_reg) h))) = expired_at t h 0"
  by (simp add: timer_expired_def read8_def q40_read_timer_ticks_def expired_at_def ticks_at_def)

lemma wait_body_eq:
  "(let status = fst (read8 (regp c status_reg) h);
        h1 = snd (read8 (regp c status_reg) h)
    in if wait_success bits status then Some (True, h1)
       else if wait_error status then Some (False, h1)
       else if \<not> fst (timer_expired t h1)
            then wl c bits t (snd (timer_expired t h1))
            else Some (False, printf (IDE_timeout status) (snd (timer_expired t h1))))
   = (if decided_at c bits t h 0 then Some (wait_result_at c bits h 0)
      else wl c bits t (after_polls c (Suc 0) (Suc 0) h))"
  apply (simp only: Let_def round_state round_expired)
  apply (simp add: read8_def status_at_def after_polls_def decided_at_def wait_result_at_def)
  done

lemma wait_loop_round:
  "wait_loop c bits t h =
     (if decided_at c bits t h 0 then Some (wait_result_at c bits h 0)
      else wait_loop c bits t (after_polls c (Suc 0) (Suc 0) h))"
  by (subst wait_loop.simps) (rule wait_body_eq)

lemma status_at_shift: "status_at c (after_polls c n m h) j = status_at c h (n + j)"
  by (simp add: status_at_def after_polls_def add.assoc)

lemma expired_at_shift: "expired_at t (after_polls c n m h) j = expired_at t h (m + j)"
  by (simp add: expired_at_def ticks_at_def after_polls_def add.assoc)

lemma wait_result_at_shift:
  "wait_result_at c bits (after_polls c n n h) k = wait_result_at c bits h (n + k)"
  by (simp add: wait_result_at_def status_at_shift after_polls_add)

lemma decided_at_shift:
  "decided_at c bits t (after_polls c n n h) k = decided_at c bits t h (n + k)"
  by (simp add: decided_at_def status_at_shift expired_at_shift)

lemma wait_loop_skip:
  "(\<forall>j<k. \<not> decided_at c bits t h j) \<Longrightarrow>
     wait_loop c bits t h = wait_loop c bits t (after_polls c k k h)"
proof (induction k arbitrary: h)
  case 0
  then show ?case by (simp add: after_polls_0)
next
  case (Suc k)
  have first: "\<not> decided_at c bits t h 0" using Suc.prems by simp
  have rest: "\<forall>j<k. \<not> decided_at c bits t (after_polls c (Suc 0) (Suc 0) h) j"
    using Suc.prems by (simp add: decided_at_shift)
  have "wait_loop c bits t h = wait_loop c bits t (after_polls c (Suc 0) (Suc 0) h)"
    using first by (subst wait_loop_round) simp
  also have "\<dots> = wait_loop c bits t (after_polls c k k (after_polls c (Suc 0) (Suc 0) h))"
    by (rule Suc.IH [OF rest])
  finally show ?case by (simp add: after_polls_add)
qed

lemma wait_loop_returns:
  assumes "\<forall>j<k. \<not> decided_at c bits t h j" and "decided_at c bits t h k"
  shows "wait_loop c bits t h = Some (wait_result_at c bits h k)"
proof -
  have "wait_loop c bits t h = wait_loop c bits t (after_polls c k k h)"
    by (rule wait_loop_skip [OF assms(1)])
  also have "\<dots> = Some (wait_result_at c bits (after_polls c k k h) 0)"
    using assms(2) by (subst wait_loop_round) (simp add: decided_at_shift)
  finally show ?thesis by (simp add: wait_result_at_shift)
qed

lemma wait_loop_Some_decided:
  assumes "wait_loop c bits t h = Some r"
  shows "\<exists>k. (\<forall>j<k. \<not> decided_at c bits t h j) \<and> decided_at c bits t h k
            \<and> r = wait_result_at c bits h k"
proof (rule wait_loop.raw_induct
    [where P = "\<lambda>c bits t h r. \<exists>k. (\<forall>j<k. \<not> decided_at c bits t h j) \<and>
       decided_at c bits t h k \<and> r = wait_result_at c bits h k", OF _ assms], goal_cases)
  case (1 wl c bits t h r)
  note body = "1"(2) [unfolded wait_body_eq]
  show ?case
  proof (cases "decided_at c bits t h 0")
    case True
    then have "r = wait_result_at c bits h 0" using body by simp
    then show ?thesis using True by (intro exI [of _ 0]) simp
  next
    case False
    then have "wl c bits t (after_polls c (Suc 0) (Suc 0) h) = Some r" using body by simp
    from "1"(1) [OF this] have
      "\<exists>k. (\<forall>j<k. \<not> decided_at c bits t (after_polls c (Suc 0) (Suc 0) h) j) \<and>
         decided_at c bits t (after_polls c (Suc 0) (Suc 0) h) k \<and>
         r = wait_result_at c bits (after_polls c (Suc 0) (Suc 0) h) k" .
    then obtain k where
      k: "\<forall>j<k. \<not> decided_at c bits t (after_polls c (Suc 0) (Suc 0) h) j"
         "decided_at c bits t (after_polls c (Suc 0) (Suc 0) h) k"
         "r = wait_result_at c bits (after_polls c (Suc 0) (Suc 0) h) k"
      by (elim exE conjE)
    have "\<forall>j<Suc k. \<not> decided_at c bits t h j"
    proof (intro allI impI)
      fix j assume "j < Suc k"
      show "\<not> decided_at c bits t h j"
      proof (cases j)
        case 0 then show ?thesis using False by simp
      next
        case (Suc i)
        then have "i < k" using \<open>j < Suc k\<close> by simp
        then show ?thesis using k(1) Suc by (simp add: decided_at_shift)
      qed
    qed
    moreover have "decided_at c bits t h (Suc k)" using k(2) by (simp add: decided_at_shift)
    moreover have "r = wait_result_at c bits h (Suc k)" using k(3) by (simp add: wait_result_at_shift)
    ultimately show ?thesis by (intro exI [of _ "Suc k"] conjI)
  qed
qed

lemma gogoboot_disk_wait_eq:
  "gogoboot_disk_wait c bits h = wait_loop c bits (wait_deadline c h) (poll_start c h)"
  by (simp add: gogoboot_disk_wait_def wait_deadline_def poll_start_def wait_entry_def
      split: prod.splits)


lemma wait_disjoint:
  assumes "bits \<noteq> 0" and "bits AND IDE_STATUS_ERROR = 0"
  shows "\<not> (wait_success bits s \<and> wait_error s)"
proof
  assume both: "wait_success bits s \<and> wait_error s"
  have evb: "even bits"
    using assms(2) by (simp add: IDE_STATUS_ERROR_def and_one_eq even_iff_mod_2_eq_zero)
  have "bit (s AND (IDE_STATUS_BUSY OR IDE_STATUS_ERROR OR bits)) 0 = bit bits 0"
    using both by (simp add: wait_success_def)
  then have evs: "even s"
    using evb by (simp add: bit_and_iff bit_or_iff bit_0 even_and_iff even_or_iff
        IDE_STATUS_BUSY_def IDE_STATUS_ERROR_def)
  from both have "wait_error s" by simp
  then consider "s AND (IDE_STATUS_BUSY OR IDE_STATUS_ERROR) = IDE_STATUS_ERROR" | "s = 0" | "s = 0xFF"
    by (auto simp: wait_error_def)
  then show False
  proof cases
    case 1
    then have "bit (s AND (IDE_STATUS_BUSY OR IDE_STATUS_ERROR)) 0 = bit IDE_STATUS_ERROR 0"
      by simp
    then show False
      using evs by (simp add: bit_and_iff bit_or_iff bit_0 even_and_iff even_or_iff
          IDE_STATUS_BUSY_def IDE_STATUS_ERROR_def)
  next
    case 2
    then show False using both assms(1) by (simp add: wait_success_def)
  next
    case 3
    then show False using evs by simp
  qed
qed




lemma regp_neq [simp]: "r \<noteq> r' \<Longrightarrow> regp c r \<noteq> regp c r'"
  by (simp add: regp_def)

lemma poll_start_eq:
  "poll_start c h =
     (let d = 3 * TIMER_HZ h;
          h1 = h\<lparr>reads := (reads h)(regp c altstatus_reg := Suc (reads h (regp c altstatus_reg))),
                 io_trace := io_trace h @ [Rd8 (regp c altstatus_reg)],
                 tick_reads := Suc (tick_reads h)\<rparr>
      in if d \<noteq> 0 \<and> d AND 0x80000000 \<noteq> 0 then h1\<lparr>console := console h @ [Bad_timer_duration d]\<rparr> else h1)"
  by (simp add: poll_start_def wait_entry_def set_timer_sec_def set_timer_ticks_def read8_def
      q40_read_timer_ticks_def printf_def Let_def)

lemma wait_deadline_eq:
  "wait_deadline c h =
     ticks_at h 0 + (let d = 3 * TIMER_HZ h in
                       if d = 0 then 1 else if d AND 0x80000000 \<noteq> 0 then 0x7fffffff else d)"
  by (simp add: wait_deadline_def wait_entry_def set_timer_sec_def set_timer_ticks_def read8_def
      q40_read_timer_ticks_def printf_def Let_def ticks_at_def)

lemma status_at_poll_start [simp]: "status_at c (poll_start c h) j = status_at c h j"
  by (simp add: poll_start_eq status_at_def Let_def)

lemma ticks_at_poll_start [simp]: "ticks_at (poll_start c h) j = ticks_at h (Suc j)"
  by (simp add: poll_start_eq ticks_at_def Let_def)

lemma expired_at_poll_start [simp]: "expired_at t (poll_start c h) j = expired_at t h (Suc j)"
  by (simp add: expired_at_def)

subsection \<open>What gogoboot_disk_wait returns\<close>

text \<open>
  C3 (as amended). For every bit mask and every sequence of status values: if the first
  \<open>k\<close> polls decide nothing (no success, no error, deadline not passed), then
  \<^item> if the next status read satisfies \<open>status & (BUSY|ERROR|bits) == bits\<close>, the wait
    returns true;
  \<^item> if it does not, and satisfies \<open>status & (BUSY|ERROR) == ERROR\<close> or is 0x00 or 0xFF,
    the wait returns false;
  in both cases the machine is the one after \<open>k + 1\<close> status reads and \<open>k\<close> reads of
  the tick counter since polling started: nothing is polled after the deciding read.
  The wait returns true only when a polled status satisfies the success test. The success
  test is made first; for a mask that is not zero and does not contain ERROR (READY and
  DATAREQUEST, the masks the driver passes), no status satisfies both tests.
\<close>

theorem wait_returns_by_status:
  assumes "\<forall>j<k. \<not> wait_success bits (status_at c (poll_start c h) j)
                 \<and> \<not> wait_error (status_at c (poll_start c h) j)
                 \<and> \<not> expired_at (wait_deadline c h) (poll_start c h) j"
  shows "(wait_success bits (status_at c (poll_start c h) k) \<longrightarrow>
            gogoboot_disk_wait c bits h = Some (True, after_polls c (Suc k) k (poll_start c h)))
       \<and> (\<not> wait_success bits (status_at c (poll_start c h) k)
            \<and> wait_error (status_at c (poll_start c h) k) \<longrightarrow>
            gogoboot_disk_wait c bits h = Some (False, after_polls c (Suc k) k (poll_start c h)))
       \<and> (\<forall>h'. gogoboot_disk_wait c bits h = Some (True, h') \<longrightarrow>
            (\<exists>n. wait_success bits (status_at c (poll_start c h) n)
                 \<and> h' = after_polls c (Suc n) n (poll_start c h)))
       \<and> (bits \<noteq> 0 \<and> bits AND IDE_STATUS_ERROR = 0 \<longrightarrow>
            (\<forall>s. \<not> (wait_success bits s \<and> wait_error s)))"
proof (intro conjI impI allI)
  have before: "\<forall>j<k. \<not> decided_at c bits (wait_deadline c h) (poll_start c h) j"
    using assms by (simp add: decided_at_def)
  {
    assume "wait_success bits (status_at c (poll_start c h) k)"
    then have "decided_at c bits (wait_deadline c h) (poll_start c h) k"
      and "wait_result_at c bits (poll_start c h) k = (True, after_polls c (Suc k) k (poll_start c h))"
      by (simp_all add: decided_at_def wait_result_at_def)
    then show "gogoboot_disk_wait c bits h = Some (True, after_polls c (Suc k) k (poll_start c h))"
      using wait_loop_returns [OF before] by (simp add: gogoboot_disk_wait_eq)
  }
  {
    assume "\<not> wait_success bits (status_at c (poll_start c h) k)
            \<and> wait_error (status_at c (poll_start c h) k)"
    then have "decided_at c bits (wait_deadline c h) (poll_start c h) k"
      and "wait_result_at c bits (poll_start c h) k = (False, after_polls c (Suc k) k (poll_start c h))"
      by (simp_all add: decided_at_def wait_result_at_def)
    then show "gogoboot_disk_wait c bits h = Some (False, after_polls c (Suc k) k (poll_start c h))"
      using wait_loop_returns [OF before] by (simp add: gogoboot_disk_wait_eq)
  }
  {
    fix h' assume "gogoboot_disk_wait c bits h = Some (True, h')"
    then have "wait_loop c bits (wait_deadline c h) (poll_start c h) = Some (True, h')"
      by (simp add: gogoboot_disk_wait_eq)
    from wait_loop_Some_decided [OF this] obtain n where
      n: "(True, h') = wait_result_at c bits (poll_start c h) n" by blast
    then show "\<exists>n. wait_success bits (status_at c (poll_start c h) n)
                 \<and> h' = after_polls c (Suc n) n (poll_start c h)"
      by (intro exI [of _ n]) (auto simp: wait_result_at_def split: if_splits)
  }
  {
    fix s assume "bits \<noteq> 0 \<and> bits AND IDE_STATUS_ERROR = 0"
    then show "\<not> (wait_success bits s \<and> wait_error s)"
      using wait_disjoint [of bits s] by simp
  }
qed

lemma status_at_mock [simp]: "status_at c (mock st dat tk used) j = st j"
  by (simp add: status_at_def mock_def)

lemma ticks_at_mock [simp]: "ticks_at (mock st dat tk used) j = tk j"
  by (simp add: ticks_at_def mock_def)

lemma wait_deadline_mock [simp]: "wait_deadline c (mock st dat tk used) = tk 0 + 600"
  by (simp add: wait_deadline_eq) (simp add: mock_def)

lemma script_simps [simp]:
  "script [] d n = d"
  "script (x # xs) d 0 = x"
  "script (x # xs) d (Suc n) = script xs d n"
  by (simp_all add: script_def)

lemma clock_every_simps [simp]:
  "clock_every step 0 = 0"
  "clock_every step (Suc n) = of_nat step + clock_every step n"
  by (simp_all add: clock_every_def)

theorem wait_returns_by_status_witness:
  "gogoboot_disk_wait ide0 IDE_STATUS_DATAREQUEST
      (mock (script [0x80, 0x80] 0x58) no_data (clock_every 1) 1)
     = Some (True, after_polls ide0 3 2
         (poll_start ide0 (mock (script [0x80, 0x80] 0x58) no_data (clock_every 1) 1)))
   \<and> gogoboot_disk_wait ide0 IDE_STATUS_READY
      (mock (script [0x80, 0xD0] 0x51) no_data (clock_every 1) 1)
     = Some (False, after_polls ide0 3 2
         (poll_start ide0 (mock (script [0x80, 0xD0] 0x51) no_data (clock_every 1) 1)))"
proof -
  have a: "\<forall>j<2. \<not> wait_success IDE_STATUS_DATAREQUEST
               (status_at ide0 (poll_start ide0 (mock (script [0x80, 0x80] 0x58) no_data (clock_every 1) 1)) j)
           \<and> \<not> wait_error
               (status_at ide0 (poll_start ide0 (mock (script [0x80, 0x80] 0x58) no_data (clock_every 1) 1)) j)
           \<and> \<not> expired_at (wait_deadline ide0 (mock (script [0x80, 0x80] 0x58) no_data (clock_every 1) 1))
               (poll_start ide0 (mock (script [0x80, 0x80] 0x58) no_data (clock_every 1) 1)) j"
    by (auto dest!: less_2_cases simp: wait_success_def wait_error_def expired_at_def
        IDE_STATUS_BUSY_def IDE_STATUS_ERROR_def IDE_STATUS_DATAREQUEST_def)
  have b: "\<forall>j<2. \<not> wait_success IDE_STATUS_READY
               (status_at ide0 (poll_start ide0 (mock (script [0x80, 0xD0] 0x51) no_data (clock_every 1) 1)) j)
           \<and> \<not> wait_error
               (status_at ide0 (poll_start ide0 (mock (script [0x80, 0xD0] 0x51) no_data (clock_every 1) 1)) j)
           \<and> \<not> expired_at (wait_deadline ide0 (mock (script [0x80, 0xD0] 0x51) no_data (clock_every 1) 1))
               (poll_start ide0 (mock (script [0x80, 0xD0] 0x51) no_data (clock_every 1) 1)) j"
    by (auto dest!: less_2_cases simp: wait_success_def wait_error_def expired_at_def
        IDE_STATUS_BUSY_def IDE_STATUS_ERROR_def IDE_STATUS_READY_def)
  show ?thesis
    using wait_returns_by_status [OF a] wait_returns_by_status [OF b]
    by (simp add: wait_success_def wait_error_def numeral_2_eq_2 numeral_3_eq_3
        IDE_STATUS_BUSY_def IDE_STATUS_ERROR_def IDE_STATUS_READY_def IDE_STATUS_DATAREQUEST_def)
qed

text \<open>
  C3 as stated fails where a status passes both tests. With the mask 0 and a bus that
  reads 0x00, one of the values on which the claim has the wait fail, the wait returns
  true after the first read. With the mask READY|ERROR (0x41) and the status 0x41, which
  has ERROR set and BUSY clear, it returns true as well. The success test comes first.
\<close>

theorem wait_error_pattern_counterexample:
  "wait_error (status_at ide0 (poll_start ide0 (mock (script [] 0x00) no_data (clock_every 1) 1)) 0)
   \<and> gogoboot_disk_wait ide0 0 (mock (script [] 0x00) no_data (clock_every 1) 1)
       = Some (True, after_polls ide0 1 0
           (poll_start ide0 (mock (script [] 0x00) no_data (clock_every 1) 1)))
   \<and> wait_error (status_at ide0 (poll_start ide0 (mock (script [] 0x41) no_data (clock_every 1) 1)) 0)
   \<and> gogoboot_disk_wait ide0 0x41 (mock (script [] 0x41) no_data (clock_every 1) 1)
       = Some (True, after_polls ide0 1 0
           (poll_start ide0 (mock (script [] 0x41) no_data (clock_every 1) 1)))"
proof -
  have "wait_loop ide0 0 (wait_deadline ide0 (mock (script [] 0x00) no_data (clock_every 1) 1))
           (poll_start ide0 (mock (script [] 0x00) no_data (clock_every 1) 1))
        = Some (wait_result_at ide0 0 (poll_start ide0 (mock (script [] 0x00) no_data (clock_every 1) 1)) 0)"
    by (rule wait_loop_returns) (simp_all add: decided_at_def wait_success_def)
  moreover have "wait_loop ide0 0x41 (wait_deadline ide0 (mock (script [] 0x41) no_data (clock_every 1) 1))
           (poll_start ide0 (mock (script [] 0x41) no_data (clock_every 1) 1))
        = Some (wait_result_at ide0 0x41
             (poll_start ide0 (mock (script [] 0x41) no_data (clock_every 1) 1)) 0)"
    by (rule wait_loop_returns)
       (simp_all add: decided_at_def wait_success_def IDE_STATUS_BUSY_def IDE_STATUS_ERROR_def)
  ultimately show ?thesis
    by (simp add: gogoboot_disk_wait_eq wait_result_at_def wait_success_def wait_error_def
        IDE_STATUS_BUSY_def IDE_STATUS_ERROR_def)
qed



subsection \<open>Sector transfer\<close>

lemma after_data_reads_0: "after_data_reads c 0 h = h"
  by (simp add: after_data_reads_def)

lemma after_data_reads_step:
  "after_data_reads c n (snd (read16 (regp c data_reg) h)) = after_data_reads c (Suc n) h"
  by (simp add: after_data_reads_def read16_def replicate_app_Cons_same)

lemma data_word_step:
  "data_word c (snd (read16 (regp c data_reg) h)) j = data_word c h (Suc j)"
  by (simp add: data_word_def read16_def)

lemma fst_read16: "fst (read16 (regp c data_reg) h) = data_word c h 0"
  by (simp add: data_word_def read16_def)

lemma bswap16_bswap16: "bswap16 (bswap16 w) = w"
  unfolding bswap16_def
  by (rule bit_word_eqI) (auto simp: bit_simps)

lemma low_byte_bswap16: "(ucast (bswap16 w) :: u8) = ucast (drop_bit 8 w)"
  unfolding bswap16_def
  by (rule bit_word_eqI) (auto simp: bit_simps)

lemma high_byte_bswap16: "(ucast (drop_bit 8 (bswap16 w)) :: u8) = ucast w"
  unfolding bswap16_def
  by (rule bit_word_eqI) (auto simp: bit_simps)

lemma low_byte_load16: "(ucast (load16 m a) :: u8) = m (a + 1)"
  unfolding load16_def
  by (rule bit_word_eqI) (auto simp: bit_simps)

lemma high_byte_load16: "(ucast (drop_bit 8 (load16 m a)) :: u8) = m a"
  unfolding load16_def
  by (rule bit_word_eqI) (auto simp: bit_simps dest: bit_imp_le_length)

lemma word_of_bytes:
  "push_bit 8 (ucast (ucast (drop_bit 8 w) :: u8)) OR ucast (ucast w :: u8) = (w :: u16)"
  by (rule bit_word_eqI) (auto simp: bit_simps)

lemma low_byte_exchanged_word: "(ucast (exchanged_word m a) :: u8) = m a"
  unfolding exchanged_word_def
  by (rule bit_word_eqI) (auto simp: bit_simps)

lemma high_byte_exchanged_word: "(ucast (drop_bit 8 (exchanged_word m a)) :: u8) = m (a + 1)"
  unfolding exchanged_word_def
  by (rule bit_word_eqI) (auto simp: bit_simps dest: bit_imp_le_length)

lemma bswap16_load16: "bswap16 (load16 m a) = exchanged_word m a"
proof -
  have "push_bit 8 (ucast (ucast (drop_bit 8 (bswap16 (load16 m a))) :: u8))
          OR ucast (ucast (bswap16 (load16 m a)) :: u8) = bswap16 (load16 m a)"
    by (rule word_of_bytes)
  then show ?thesis
    by (simp add: low_byte_bswap16 high_byte_bswap16 low_byte_load16 high_byte_load16
        exchanged_word_def)
qed

lemma read_image_step:
  "read_image c (snd (read16 (regp c data_reg) h)) (buffer + 2)
      (store16 m buffer (bswap16 (data_word c h 0))) n
   = read_image c h buffer m (Suc n)"
proof
  fix a
  consider "a < buffer" | "a = buffer" | "a = buffer + 1" | "buffer + 2 \<le> a"
    by linarith
  then show "read_image c (snd (read16 (regp c data_reg) h)) (buffer + 2)
      (store16 m buffer (bswap16 (data_word c h 0))) n a
   = read_image c h buffer m (Suc n) a"
  proof cases
    case 1
    then show ?thesis by (simp add: read_image_def store16_def)
  next
    case 2
    then show ?thesis by (simp add: read_image_def store16_def high_byte_bswap16)
  next
    case 3
    then show ?thesis by (simp add: read_image_def store16_def low_byte_bswap16)
  next
    case 4
    then obtain b where b: "a = buffer + 2 + b" by (metis le_Suc_ex)
    show ?thesis
      unfolding b by (simp add: read_image_def data_word_step store16_def)
  qed
qed

lemma read_sector_loop_eq:
  "i \<le> 256 \<Longrightarrow>
     read_sector_loop c i buffer m h
       = (read_image c h buffer m (256 - i), after_data_reads c (256 - i) h)"
proof (induction c i buffer m h rule: read_sector_loop.induct)
  case (1 c i buffer m h)
  show ?case
  proof (cases "i < 256")
    case True
    then have n: "256 - i = Suc (256 - (i + 1))" by simp
    have "read_sector_loop c i buffer m h
          = read_sector_loop c (i + 1) (buffer + 2)
              (store16 m buffer (bswap16 (fst (read16 (regp c data_reg) h))))
              (snd (read16 (regp c data_reg) h))"
      using True by (subst read_sector_loop.simps) simp
    also have "\<dots> = (read_image c (snd (read16 (regp c data_reg) h)) (buffer + 2)
                        (store16 m buffer (bswap16 (fst (read16 (regp c data_reg) h))))
                        (256 - (i + 1)),
                      after_data_reads c (256 - (i + 1)) (snd (read16 (regp c data_reg) h)))"
      using True by (intro "1.IH") simp_all
    also have "\<dots> = (read_image c h buffer m (256 - i), after_data_reads c (256 - i) h)"
      unfolding n fst_read16 read_image_step after_data_reads_step ..
    finally show ?thesis .
  next
    case False
    then have "i = 256" using "1.prems" by simp
    then show ?thesis
      by (subst read_sector_loop.simps) (auto simp: after_data_reads_0 read_image_def fun_eq_iff)
  qed
qed

lemma write_sector_loop_eq:
  "i \<le> 256 \<Longrightarrow>
     write_sector_loop c i buffer m h
       = h\<lparr>io_trace := io_trace h @ data_writes c m buffer (256 - i)\<rparr>"
proof (induction c i buffer m h rule: write_sector_loop.induct)
  case (1 c i buffer m h)
  show ?case
  proof (cases "i < 256")
    case True
    then have n: "256 - i = Suc (256 - (i + 1))" by simp
    have shift: "data_writes c m buffer (Suc k)
                 = Wr16 (regp c data_reg) (bswap16 (load16 m buffer)) # data_writes c m (buffer + 2) k" for k
      unfolding data_writes_def bswap16_load16
      by (simp only: upt_conv_Cons [of 0 "Suc k"] map_Suc_upt [symmetric] list.map zero_less_Suc)
         (simp add: comp_def)
    have "write_sector_loop c i buffer m h
          = write_sector_loop c (i + 1) (buffer + 2) m
              (write16 (regp c data_reg) (bswap16 (load16 m buffer)) h)"
      using True by (subst write_sector_loop.simps) simp
    also have "\<dots> = (write16 (regp c data_reg) (bswap16 (load16 m buffer)) h)
                 \<lparr>io_trace := io_trace (write16 (regp c data_reg) (bswap16 (load16 m buffer)) h)
                     @ data_writes c m (buffer + 2) (256 - (i + 1))\<rparr>"
      using True by (intro "1.IH") simp_all
    also have "\<dots> = h\<lparr>io_trace := io_trace h @ data_writes c m buffer (256 - i)\<rparr>"
      unfolding n shift by (simp add: write16_def)
    finally show ?thesis .
  next
    case False
    then have "i = 256" using "1.prems" by simp
    then show ?thesis
      by (subst write_sector_loop.simps) (simp add: data_writes_def)
  qed
qed

lemma gogoboot_disk_read_sector_data_eq:
  "gogoboot_disk_read_sector_data c ptr m h
     = (read_image c h ptr m 256, after_data_reads c 256 h)"
proof -
  have "read_sector_loop c 0 ptr m h
          = (read_image c h ptr m (256 - 0), after_data_reads c (256 - 0) h)"
    by (rule read_sector_loop_eq) simp
  then show ?thesis by (simp only: gogoboot_disk_read_sector_data_def diff_zero)
qed

lemma gogoboot_disk_write_sector_data_eq:
  "gogoboot_disk_write_sector_data c ptr m h
     = h\<lparr>io_trace := io_trace h @ data_writes c m ptr 256\<rparr>"
proof -
  have "write_sector_loop c 0 ptr m h = h\<lparr>io_trace := io_trace h @ data_writes c m ptr (256 - 0)\<rparr>"
    by (rule write_sector_loop_eq) simp
  then show ?thesis by (simp only: gogoboot_disk_write_sector_data_def diff_zero)
qed

lemma read_image_bytes:
  "j < n \<Longrightarrow> read_image c h ptr m n (ptr + 2 * j) = ucast (data_word c h j)"
  "j < n \<Longrightarrow> read_image c h ptr m n (ptr + 2 * j + 1) = ucast (drop_bit 8 (data_word c h j))"
  by (simp_all add: read_image_def add.assoc)

lemma data_writes_nth:
  "j < n \<Longrightarrow> data_writes c m src n ! j
     = Wr16 (regp c data_reg) (push_bit 8 (ucast (m (src + 2 * j + 1))) OR ucast (m (src + 2 * j)))"
  by (simp add: data_writes_def exchanged_word_def)

lemma read_image_outside:
  "a < ptr \<or> ptr + 2 * n \<le> a \<Longrightarrow> read_image c h ptr m n a = m a"
  by (auto simp: read_image_def)

lemma read_image_roundtrip:
  assumes "data_word c h (i div 2) = exchanged_word m (src + 2 * (i div 2))" and "i < 2 * n"
  shows "read_image c h dst m2 n (dst + i) = m (src + i)"
proof (cases "even i")
  case True
  then obtain k where k: "i = 2 * k" by (elim evenE)
  show ?thesis
    using assms unfolding k by (simp add: read_image_def low_byte_exchanged_word)
next
  case False
  then obtain k where k: "i = 2 * k + 1" by (elim oddE)
  show ?thesis
    using assms unfolding k by (simp add: read_image_def high_byte_exchanged_word)
qed

lemma map_upt_eqD: "map f [0..<n] = map g [0..<n] \<Longrightarrow> k < n \<Longrightarrow> f k = g k"
  by simp

text \<open>
  C6. \<open>gogoboot_disk_write_sector_data\<close> writes exactly 256 words to the data
  register and does nothing else; the \<open>j\<close>-th word has the byte at \<open>src + 2 * j\<close> as
  its low byte and the byte at \<open>src + 2 * j + 1\<close> as its high byte, the reverse of the
  order in which the 68k holds a word in memory. \<open>gogoboot_disk_read_sector_data\<close>
  reads the data register exactly 256 times, stores the low byte of the \<open>j\<close>-th word
  read at \<open>dst + 2 * j\<close> and its high byte at \<open>dst + 2 * j + 1\<close>, again the reverse
  of the 68k's order, and leaves every byte outside \<open>dst .. dst + 511\<close> as it was. So
  each routine moves 512 bytes. The byte swap exchanges the two bytes of a word and is
  its own inverse. If the words the read receives are the words the write sent, the 512
  bytes at \<open>dst\<close> after the read are the 512 bytes at \<open>src\<close> that were written.
\<close>

theorem sector_transfer_roundtrip:
  "gogoboot_disk_write_sector_data c src m h = h\<lparr>io_trace := io_trace h @ data_writes c m src 256\<rparr>
   \<and> length (data_writes c m src 256) = 256
   \<and> (\<forall>j<256. data_writes c m src 256 ! j
          = Wr16 (regp c data_reg)
              (push_bit 8 (ucast (m (src + 2 * j + 1))) OR ucast (m (src + 2 * j))))
   \<and> snd (gogoboot_disk_read_sector_data c dst m2 h2) = after_data_reads c 256 h2
   \<and> (\<forall>j<256. fst (gogoboot_disk_read_sector_data c dst m2 h2) (dst + 2 * j)
                  = ucast (data_word c h2 j)
              \<and> fst (gogoboot_disk_read_sector_data c dst m2 h2) (dst + 2 * j + 1)
                  = ucast (drop_bit 8 (data_word c h2 j)))
   \<and> (\<forall>a. a < dst \<or> dst + 512 \<le> a \<longrightarrow> fst (gogoboot_disk_read_sector_data c dst m2 h2) a = m2 a)
   \<and> (ucast (bswap16 w) :: u8) = ucast (drop_bit 8 w)
   \<and> (ucast (drop_bit 8 (bswap16 w)) :: u8) = ucast w
   \<and> bswap16 (bswap16 w) = w
   \<and> (map (\<lambda>j. Wr16 (regp c data_reg) (data_word c h2 j)) [0..<256] = data_writes c m src 256
        \<longrightarrow> (\<forall>i<512. fst (gogoboot_disk_read_sector_data c dst m2 h2) (dst + i) = m (src + i)))"
proof (intro conjI allI impI)
  show "gogoboot_disk_write_sector_data c src m h
          = h\<lparr>io_trace := io_trace h @ data_writes c m src 256\<rparr>"
    by (rule gogoboot_disk_write_sector_data_eq)
  show "length (data_writes c m src 256) = 256"
    by (simp only: data_writes_def length_map length_upt diff_zero)
  show "data_writes c m src 256 ! j
          = Wr16 (regp c data_reg)
              (push_bit 8 (ucast (m (src + 2 * j + 1))) OR ucast (m (src + 2 * j)))"
    if "j < 256" for j
    using that by (rule data_writes_nth)
  show "snd (gogoboot_disk_read_sector_data c dst m2 h2) = after_data_reads c 256 h2"
    by (simp add: gogoboot_disk_read_sector_data_eq)
  show "fst (gogoboot_disk_read_sector_data c dst m2 h2) (dst + 2 * j) = ucast (data_word c h2 j)"
    if "j < 256" for j
    using that by (simp only: gogoboot_disk_read_sector_data_eq fst_conv read_image_bytes)
  show "fst (gogoboot_disk_read_sector_data c dst m2 h2) (dst + 2 * j + 1)
          = ucast (drop_bit 8 (data_word c h2 j))"
    if "j < 256" for j
    using that by (simp only: gogoboot_disk_read_sector_data_eq fst_conv read_image_bytes)
  show "fst (gogoboot_disk_read_sector_data c dst m2 h2) a = m2 a"
    if "a < dst \<or> dst + 512 \<le> a" for a
    using that by (simp add: gogoboot_disk_read_sector_data_eq read_image_outside)
  show "(ucast (bswap16 w) :: u8) = ucast (drop_bit 8 w)"
    unfolding bswap16_def by (rule bit_word_eqI) (auto simp: bit_simps)
  show "(ucast (drop_bit 8 (bswap16 w)) :: u8) = ucast w"
    unfolding bswap16_def by (rule bit_word_eqI) (auto simp: bit_simps)
  show "bswap16 (bswap16 w) = w"
    unfolding bswap16_def by (rule bit_word_eqI) (auto simp: bit_simps)
  show "fst (gogoboot_disk_read_sector_data c dst m2 h2) (dst + i) = m (src + i)"
    if same: "map (\<lambda>j. Wr16 (regp c data_reg) (data_word c h2 j)) [0..<256] = data_writes c m src 256"
      and i: "i < 512" for i
  proof -
    have k: "i div 2 < 256" using i by simp
    have "Wr16 (regp c data_reg) (data_word c h2 (i div 2))
          = Wr16 (regp c data_reg) (exchanged_word m (src + 2 * (i div 2)))"
      by (rule map_upt_eqD [OF same [unfolded data_writes_def] k])
    then have "data_word c h2 (i div 2) = exchanged_word m (src + 2 * (i div 2))"
      by simp
    then show ?thesis
      using i by (simp add: gogoboot_disk_read_sector_data_eq read_image_roundtrip)
  qed
qed

lemma data_word_mock [simp]: "data_word c (mock st dat tk used) j = dat j"
  by (simp add: data_word_def mock_def)

theorem sector_transfer_roundtrip_witness:
  "fst (gogoboot_disk_read_sector_data ide0 1024 zero_mem
          (mock (script [] 0x58) pattern_words (clock_every 1) 1)) (1024 + 5) = pattern_mem (0 + 5)
   \<and> fst (gogoboot_disk_read_sector_data ide0 1024 zero_mem
          (mock (script [] 0x58) pattern_words (clock_every 1) 1)) (1024 + 510) = pattern_mem (0 + 510)
   \<and> fst (gogoboot_disk_read_sector_data ide0 1024 zero_mem
          (mock (script [] 0x58) pattern_words (clock_every 1) 1)) 1023 = zero_mem 1023
   \<and> data_writes ide0 pattern_mem 0 256 ! 2 = Wr16 (regp ide0 data_reg) 0x261F"
proof -
  have same: "map (\<lambda>j. Wr16 (regp ide0 data_reg)
                 (data_word ide0 (mock (script [] 0x58) pattern_words (clock_every 1) 1) j)) [0..<256]
              = data_writes ide0 pattern_mem 0 256"
    by (simp only: data_writes_def data_word_mock pattern_words_def add_0)
  note T = sector_transfer_roundtrip [of ide0 0 pattern_mem
        "mock (script [] 0x58) pattern_words (clock_every 1) 1" 1024 zero_mem
        "mock (script [] 0x58) pattern_words (clock_every 1) 1" 0]
  from T same have rt: "\<forall>i<512. fst (gogoboot_disk_read_sector_data ide0 1024 zero_mem
          (mock (script [] 0x58) pattern_words (clock_every 1) 1)) (1024 + i) = pattern_mem (0 + i)"
    by (elim conjE) (erule (1) mp)
  from T have out: "\<forall>a. a < 1024 \<or> 1024 + 512 \<le> a \<longrightarrow>
          fst (gogoboot_disk_read_sector_data ide0 1024 zero_mem
            (mock (script [] 0x58) pattern_words (clock_every 1) 1)) a = zero_mem a"
    by (elim conjE)
  from T have wr: "\<forall>j<256. data_writes ide0 pattern_mem 0 256 ! j
          = Wr16 (regp ide0 data_reg)
              (push_bit 8 (ucast (pattern_mem (0 + 2 * j + 1))) OR ucast (pattern_mem (0 + 2 * j)))"
    by (elim conjE)
  have w2: "data_writes ide0 pattern_mem 0 256 ! 2 = Wr16 (regp ide0 data_reg) 0x261F"
    using wr [rule_format, of 2] by (simp add: pattern_mem_def)
  have "5 < (512::nat)" and "510 < (512::nat)" and "(1023::nat) < 1024 \<or> (1024::nat) + 512 \<le> 1023"
    by simp_all
  then show ?thesis
    by (intro conjI rt [rule_format] out [rule_format] w2)
qed

subsection \<open>gogoboot_disk_read_name\<close>

lemma name_copy_loop_eq:
  "\<exists>buffer1. name_copy_loop ident buffer s offset (2 * int n) = (buffer1, s + 2 * n)
      \<and> map buffer1 [s..<s + 2 * n] = decode_pairs ident offset n
      \<and> (\<forall>a. a < s \<or> s + 2 * n \<le> a \<longrightarrow> buffer1 a = buffer a)"
proof (induction n arbitrary: buffer s offset)
  case 0
  show ?case by (subst name_copy_loop.simps) simp
next
  case (Suc n)
  let ?b = "buffer(s := ident (offset + 1), s + 1 := ident offset)"
  from Suc.IH [of ?b "s + 2" "offset + 2"] obtain buffer1 where
    b1: "name_copy_loop ident ?b (s + 2) (offset + 2) (2 * int n) = (buffer1, s + 2 + 2 * n)"
        "map buffer1 [s + 2..<s + 2 + 2 * n] = decode_pairs ident (offset + 2) n"
        "\<forall>a. a < s + 2 \<or> s + 2 + 2 * n \<le> a \<longrightarrow> buffer1 a = ?b a"
    by blast
  have step: "name_copy_loop ident buffer s offset (2 * int (Suc n))
              = name_copy_loop ident ?b (s + 2) (offset + 2) (2 * int n)"
    by (subst name_copy_loop.simps) simp
  have s0: "buffer1 s = ident (offset + 1)" and s1: "buffer1 (Suc s) = ident offset"
    using b1(3) by simp_all
  have "[s..<s + 2 * Suc n] = s # Suc s # [s + 2..<s + 2 + 2 * n]"
    by (simp add: upt_rec [of s] upt_rec [of "Suc s"])
  then have "map buffer1 [s..<s + 2 * Suc n] = decode_pairs ident offset (Suc n)"
    using b1(2) s0 s1 by simp
  moreover have "\<forall>a. a < s \<or> s + 2 * Suc n \<le> a \<longrightarrow> buffer1 a = buffer a"
    using b1(3) by auto
  ultimately show ?case
    using step b1(1) by (intro exI [of _ buffer1]) simp
qed

lemma strlen_from_first_zero:
  "buffer t = 0 \<Longrightarrow> (\<forall>j. i \<le> j \<and> j < t \<longrightarrow> buffer j \<noteq> 0) \<Longrightarrow> i \<le> t
     \<Longrightarrow> strlen_from buffer i = Some t"
proof (induction "t - i" arbitrary: i)
  case 0
  then show ?case by (subst strlen_from.simps) simp
next
  case (Suc d)
  then have "i < t" by simp
  then have "buffer i \<noteq> 0" using Suc.prems by simp
  then have "strlen_from buffer i = strlen_from buffer (Suc i)"
    by (subst strlen_from.simps) simp
  also have "\<dots> = Some t"
    using Suc.hyps Suc.prems \<open>i < t\<close> by (intro Suc.hyps(1)) simp_all
  finally show ?case .
qed

lemma rtrim_loop_eq:
  "rtrim_loop buffer s = length (strip_trailing_spaces (map buffer [0..<s]))"
proof (induction buffer s rule: rtrim_loop.induct)
  case (1 buffer s)
  show ?case
  proof (cases "s > 0 \<and> buffer (s - 1) = 0x20")
    case True
    then obtain s' where s': "s = Suc s'" by (cases s) simp_all
    have "rtrim_loop buffer s = rtrim_loop buffer (s - 1)"
      using True by (subst rtrim_loop.simps) simp
    also have "\<dots> = length (strip_trailing_spaces (map buffer [0..<s - 1]))"
      using True by (intro "1.IH") simp
    also have "\<dots> = length (strip_trailing_spaces (map buffer [0..<s]))"
      using True unfolding s' by (simp add: strip_trailing_spaces_def)
    finally show ?thesis .
  next
    case False
    then have "rtrim_loop buffer s = s" by (subst rtrim_loop.simps) auto
    moreover have "length (strip_trailing_spaces (map buffer [0..<s])) = s"
    proof (cases s)
      case 0
      then show ?thesis by (simp add: strip_trailing_spaces_def)
    next
      case (Suc s')
      then show ?thesis using False by (simp add: strip_trailing_spaces_def)
    qed
    ultimately show ?thesis by simp
  qed
qed

lemma strip_trailing_spaces_take:
  "take (length (strip_trailing_spaces xs)) xs = strip_trailing_spaces xs"
proof -
  have "rev (takeWhile (\<lambda>ch. ch = 0x20) (rev xs) @ dropWhile (\<lambda>ch. ch = 0x20) (rev xs)) = xs"
    by simp
  then have "strip_trailing_spaces xs @ rev (takeWhile (\<lambda>ch. ch = 0x20) (rev xs)) = xs"
    by (simp add: strip_trailing_spaces_def del: takeWhile_dropWhile_id)
  then show ?thesis by (metis append_eq_conv_conj)
qed

lemma length_strip_trailing_spaces: "length (strip_trailing_spaces xs) \<le> length xs"
  by (simp add: strip_trailing_spaces_def length_dropWhile_le [of _ "rev xs", simplified])

lemma map_upt_take: "k \<le> L \<Longrightarrow> map f [0..<k] = take k (map f [0..<L])"
  by (simp add: take_map)

text \<open>
  C7. For every IDENTIFY page, offset and even field length \<open>len\<close>: the copy loop of
  \<open>gogoboot_disk_read_name\<close> writes the \<open>len\<close> bytes of the field to the start of the
  buffer, each pair as (second byte, first byte), and stops with \<open>s\<close> at index \<open>len\<close>
  (at 0 when \<open>len\<close> is negative), where the NUL is then stored. The function returns,
  and the C string then in the buffer (the bytes before the first NUL) is the decoded
  string (the decoded bytes before their first NUL, if the field has one) without its
  trailing spaces. Bytes of the buffer after index \<open>len\<close> are not changed. The field
  "SAMPLE DISK   " stored in swapped pairs gives "SAMPLE DISK".
\<close>

theorem read_name_decodes_and_strips:
  assumes len: "even len"
  shows "\<exists>buffer'. gogoboot_disk_read_name ident buffer offset len = Some buffer'
        \<and> snd (name_copy_loop ident buffer 0 offset len) = nat len
        \<and> map (fst (name_copy_loop ident buffer 0 offset len)) [0..<nat len]
            = decode_pairs ident offset (nat len div 2)
        \<and> c_string buffer'
            = Some (strip_trailing_spaces
                (takeWhile (\<lambda>ch. ch \<noteq> 0) (decode_pairs ident offset (nat len div 2))))
        \<and> (\<forall>a. a > nat len \<longrightarrow> buffer' a = buffer a)"
proof -
  define n where "n = nat len div 2"
  define L where "L = 2 * n"
  have nl: "nat len = L"
    using len by (cases "0 \<le> len") (auto simp: L_def n_def even_nat_iff)
  have "\<exists>buffer1. name_copy_loop ident buffer 0 offset len = (buffer1, L)
          \<and> map buffer1 [0..<L] = decode_pairs ident offset n
          \<and> (\<forall>a. L \<le> a \<longrightarrow> buffer1 a = buffer a)"
  proof (cases "0 < len")
    case True
    then have "len = 2 * int n" using nl by (simp add: L_def)
    then show ?thesis
      using name_copy_loop_eq [of ident buffer 0 offset n] by (auto simp: L_def)
  next
    case False
    then have "n = 0" by (simp add: n_def)
    moreover have "name_copy_loop ident buffer 0 offset len = (buffer, 0)"
      using False by (subst name_copy_loop.simps) simp
    ultimately show ?thesis by (simp add: L_def)
  qed
  then obtain buffer1 where
    b1: "name_copy_loop ident buffer 0 offset len = (buffer1, L)"
        "map buffer1 [0..<L] = decode_pairs ident offset n"
        "\<forall>a. L \<le> a \<longrightarrow> buffer1 a = buffer a"
    by blast
  define buffer2 where "buffer2 = buffer1(L := 0)"
  define ys where "ys = map buffer2 [0..<L]"
  define zs where "zs = takeWhile (\<lambda>ch. ch \<noteq> 0) ys"
  define k where "k = length zs"
  have ys: "ys = decode_pairs ident offset n"
    using b1(2) by (simp add: ys_def buffer2_def)
  have kL: "k \<le> L"
    using length_takeWhile_le [of "\<lambda>ch. ch \<noteq> 0" ys] by (simp add: k_def zs_def ys_def)
  have zs_take: "zs = map buffer2 [0..<k]"
    unfolding zs_def k_def
    by (metis kL k_def map_upt_take takeWhile_eq_take ys_def zs_def)
  have nz: "buffer2 j \<noteq> 0" if "j < k" for j
  proof -
    have "zs ! j \<in> set zs" using that by (simp add: k_def)
    then have "zs ! j \<noteq> 0" unfolding zs_def by (auto dest: set_takeWhileD)
    moreover have "zs ! j = buffer2 j" using that by (simp add: zs_take)
    ultimately show ?thesis by simp
  qed
  have zk: "buffer2 k = 0"
  proof (cases "k < L")
    case True
    then have "k < length ys" by (simp add: ys_def)
    then have "\<not> (ys ! k \<noteq> 0)"
      unfolding k_def zs_def by (rule nth_length_takeWhile)
    then show ?thesis using True by (simp add: ys_def)
  next
    case False
    then have "k = L" using kL by simp
    then show ?thesis by (simp add: buffer2_def)
  qed
  have len2: "strlen_from buffer2 0 = Some k"
    using zk nz by (intro strlen_from_first_zero) simp_all
  define t where "t = rtrim_loop buffer2 k"
  have t: "t = length (strip_trailing_spaces zs)"
    by (simp add: t_def rtrim_loop_eq zs_take)
  have tk: "t \<le> k"
    using length_strip_trailing_spaces [of zs] by (simp add: t k_def)
  define buffer' where "buffer' = buffer2(t := 0)"
  have res: "gogoboot_disk_read_name ident buffer offset len = Some buffer'"
    by (simp add: gogoboot_disk_read_name_def b1(1) len2 [unfolded buffer2_def] Let_def
        buffer'_def buffer2_def t_def)
  have len': "strlen_from buffer' 0 = Some t"
    using nz tk by (intro strlen_from_first_zero) (simp_all add: buffer'_def)
  have "map buffer' [0..<t] = map buffer2 [0..<t]"
    by (simp add: buffer'_def)
  also have "\<dots> = take t zs"
    unfolding zs_take by (rule map_upt_take [OF tk])
  also have "\<dots> = strip_trailing_spaces zs"
    unfolding t by (rule strip_trailing_spaces_take)
  finally have str: "c_string buffer' = Some (strip_trailing_spaces zs)"
    by (simp add: c_string_def len')
  have out: "\<forall>a. a > nat len \<longrightarrow> buffer' a = buffer a"
    using b1(3) tk kL by (auto simp: buffer'_def buffer2_def nl)
  show ?thesis
    using res str out b1(1,2) by (intro exI [of _ buffer']) (simp add: nl zs_def ys n_def)
qed

lemma decode_sample:
  "decode_pairs sample_page 54 7 = map of_char ''SAMPLE DISK   ''"
  by (simp add: eval_nat_numeral sample_page_def)

lemma strip_sample:
  "strip_trailing_spaces (takeWhile (\<lambda>ch. ch \<noteq> 0) (map of_char ''SAMPLE DISK   ''))
     = map of_char ''SAMPLE DISK''"
  by (simp add: strip_trailing_spaces_def)

theorem read_name_decodes_and_strips_witness:
  "c_string (the (gogoboot_disk_read_name sample_page zero_mem 54 14))
     = Some (map of_char ''SAMPLE DISK'')
   \<and> map (fst (name_copy_loop sample_page zero_mem 0 54 14)) [0..<nat 14]
     = map of_char ''SAMPLE DISK   ''
   \<and> snd (name_copy_loop sample_page zero_mem 0 54 14) = nat 14"
proof -
  have n: "even (14::int)" and n7: "nat 14 div 2 = 7" by simp_all
  from read_name_decodes_and_strips [OF n, of sample_page zero_mem 54, unfolded n7] obtain b where
    b: "gogoboot_disk_read_name sample_page zero_mem 54 14 = Some b"
       "snd (name_copy_loop sample_page zero_mem 0 54 14) = nat 14"
       "map (fst (name_copy_loop sample_page zero_mem 0 54 14)) [0..<nat 14]
          = decode_pairs sample_page 54 7"
       "c_string b = Some (strip_trailing_spaces
          (takeWhile (\<lambda>ch. ch \<noteq> 0) (decode_pairs sample_page 54 7)))"
    by blast
  show ?thesis
    unfolding b(1) option.sel b(2) b(3) b(4) decode_sample strip_sample by simp
qed

subsection \<open>What a wait leaves alone\<close>

lemma writes_to_append [simp]: "writes_to p (xs @ ys) = writes_to p xs @ writes_to p ys"
  by (induction p xs rule: writes_to.induct) simp_all

lemma writes_to_replicate_Rd8 [simp]: "writes_to p (replicate n (Rd8 q)) = []"
  by (induction n) simp_all

lemma writes_to_replicate_Rd16 [simp]: "writes_to p (replicate n (Rd16 q)) = []"
  by (induction n) simp_all

lemma writes_to_map_Wr16: "writes_to p (map (\<lambda>j. Wr16 q (f j)) js) = []"
  by (induction js) simp_all

lemma writes_to_data_writes [simp]: "writes_to p (data_writes c m buffer n) = []"
  by (simp only: data_writes_def writes_to_map_Wr16)

lemma wait_result_frame:
  assumes "r = wait_result_at c bits (poll_start c h) k"
  shows "disk_table (snd r) = disk_table h \<and> disk_table_used (snd r) = disk_table_used h
       \<and> fs_mounts (snd r) = fs_mounts h \<and> TIMER_HZ (snd r) = TIMER_HZ h
       \<and> MAX_IDE_DISKS (snd r) = MAX_IDE_DISKS h
       \<and> writes_to p (io_trace (snd r)) = writes_to p (io_trace h)"
  unfolding assms
  by (simp add: wait_result_at_def after_polls_def printf_def poll_start_eq Let_def)

lemma wait_frame:
  assumes "gogoboot_disk_wait c bits h = Some (ok, h')"
  shows "disk_table h' = disk_table h \<and> disk_table_used h' = disk_table_used h
       \<and> fs_mounts h' = fs_mounts h \<and> TIMER_HZ h' = TIMER_HZ h
       \<and> MAX_IDE_DISKS h' = MAX_IDE_DISKS h
       \<and> writes_to p (io_trace h') = writes_to p (io_trace h)"
proof -
  from assms have "wait_loop c bits (wait_deadline c h) (poll_start c h) = Some (ok, h')"
    by (simp add: gogoboot_disk_wait_eq)
  from wait_loop_Some_decided [OF this] obtain k where
    "(ok, h') = wait_result_at c bits (poll_start c h) k" by blast
  from wait_result_frame [OF this, of p] show ?thesis by simp
qed

lemma wait_first_poll:
  assumes "wait_success bits (status_at c h 0)"
  shows "gogoboot_disk_wait c bits h = Some (True, after_polls c (Suc 0) 0 (poll_start c h))"
proof -
  have "wait_loop c bits (wait_deadline c h) (poll_start c h)
          = Some (wait_result_at c bits (poll_start c h) 0)"
    using assms by (intro wait_loop_returns) (simp_all add: decided_at_def)
  then show ?thesis using assms by (simp add: gogoboot_disk_wait_eq wait_result_at_def)
qed

lemma status_at_write8 [simp]: "status_at c (write8 p v h) j = status_at c h j"
  by (simp add: status_at_def write8_def)

lemma status_at_printf [simp]: "status_at c (printf x h) j = status_at c h j"
  by (simp add: status_at_def printf_def)

lemma data_word_write8 [simp]: "data_word c (write8 p v h) j = data_word c h j"
  by (simp add: data_word_def write8_def)

lemma data_word_printf [simp]: "data_word c (printf x h) j = data_word c h j"
  by (simp add: data_word_def printf_def)

lemma data_word_after_polls [simp]: "data_word c (after_polls c n k h) j = data_word c h j"
  by (simp add: data_word_def after_polls_def)

lemma data_word_poll_start [simp]: "data_word c (poll_start c h) j = data_word c h j"
  by (simp add: data_word_def poll_start_eq Let_def)

lemma identify_byte_99:
  "fst (gogoboot_disk_read_sector_data c 0 m h) 99 = ucast (drop_bit 8 (data_word c h 49))"
  by (simp add: gogoboot_disk_read_sector_data_eq read_image_def)

subsection \<open>Device identification\<close>

text \<open>
  C9. When \<open>gogoboot_disk_table_init\<close> has read the IDENTIFY page (the slot is 0 or 1,
  the wait for READY and the wait for DATAREQUEST both succeeded) and bit 1 of byte 99 of
  the page is clear, it prints "LBA not supported" and returns: the count of registered
  disks, every entry of the disk table and the list of mounts requested from FatFs are
  the same as before the call.
\<close>

theorem lba_unsupported_not_registered:
  assumes "dsk = 0 \<or> dsk = 1"
    and "gogoboot_disk_wait c IDE_STATUS_READY
           (write8 (regp c device_reg) (if dsk = 0 then 0xE0 else 0xF0)
              (printf (IDE_probe (base_io c) dsk) h)) = Some (True, h2)"
    and "gogoboot_disk_wait c IDE_STATUS_DATAREQUEST
           (write8 (regp c command_reg) IDE_CMD_IDENTIFY h2) = Some (True, h3)"
    and "fst (gogoboot_disk_read_sector_data c 0 zero_mem h3) 99 AND 0x02 = 0"
  shows "gogoboot_disk_table_init c dsk h
           = Some (printf LBA_not_supported (snd (gogoboot_disk_read_sector_data c 0 zero_mem h3)))
       \<and> disk_table_used (the (gogoboot_disk_table_init c dsk h)) = disk_table_used h
       \<and> disk_table (the (gogoboot_disk_table_init c dsk h)) = disk_table h
       \<and> fs_mounts (the (gogoboot_disk_table_init c dsk h)) = fs_mounts h"
proof -
  have res: "gogoboot_disk_table_init c dsk h
           = Some (printf LBA_not_supported (snd (gogoboot_disk_read_sector_data c 0 zero_mem h3)))"
    using assms by (auto simp: gogoboot_disk_table_init_def Let_def split: prod.splits)
  have f2: "disk_table h2 = disk_table h \<and> disk_table_used h2 = disk_table_used h
            \<and> fs_mounts h2 = fs_mounts h"
    using wait_frame [OF assms(2)] by (simp add: write8_def printf_def)
  have f3: "disk_table h3 = disk_table h2 \<and> disk_table_used h3 = disk_table_used h2
            \<and> fs_mounts h3 = fs_mounts h2"
    using wait_frame [OF assms(3)] by (simp add: write8_def)
  show ?thesis
    unfolding res option.sel using f2 f3
    by (simp add: gogoboot_disk_read_sector_data_eq after_data_reads_def printf_def)
qed

theorem lba_unsupported_not_registered_witness:
  "gogoboot_disk_table_init ide0 1 (mock (script [] 0x58) no_data (clock_every 1) 1) \<noteq> None
   \<and> disk_table_used (the (gogoboot_disk_table_init ide0 1
         (mock (script [] 0x58) no_data (clock_every 1) 1))) = 1
   \<and> disk_table (the (gogoboot_disk_table_init ide0 1
         (mock (script [] 0x58) no_data (clock_every 1) 1)))
       = disk_table (mock (script [] 0x58) no_data (clock_every 1) 1)"
proof -
  let ?h = "mock (script [] 0x58) no_data (clock_every 1) 1"
  let ?h1 = "write8 (regp ide0 device_reg) (if (1::int) = 0 then 0xE0 else 0xF0)
               (printf (IDE_probe (base_io ide0) 1) ?h)"
  let ?h2 = "after_polls ide0 (Suc 0) 0 (poll_start ide0 ?h1)"
  let ?h2c = "write8 (regp ide0 command_reg) IDE_CMD_IDENTIFY ?h2"
  let ?h3 = "after_polls ide0 (Suc 0) 0 (poll_start ide0 ?h2c)"
  have a: "(1::int) = 0 \<or> (1::int) = 1" by simp
  have b: "gogoboot_disk_wait ide0 IDE_STATUS_READY ?h1 = Some (True, ?h2)"
    by (rule wait_first_poll)
       (simp add: wait_success_def IDE_STATUS_BUSY_def IDE_STATUS_ERROR_def IDE_STATUS_READY_def)
  have c: "gogoboot_disk_wait ide0 IDE_STATUS_DATAREQUEST ?h2c = Some (True, ?h3)"
    by (rule wait_first_poll)
       (simp add: status_at_shift wait_success_def IDE_STATUS_BUSY_def IDE_STATUS_ERROR_def
          IDE_STATUS_DATAREQUEST_def)
  have d: "fst (gogoboot_disk_read_sector_data ide0 0 zero_mem ?h3) 99 AND 0x02 = 0"
    by (simp add: identify_byte_99 no_data_def)
  have e: "disk_table_used ?h = 1" by (simp add: mock_def)
  note T = lba_unsupported_not_registered [OF a b c d]
  show ?thesis
  proof (intro conjI)
    show "gogoboot_disk_table_init ide0 1 ?h \<noteq> None"
      using T [THEN conjunct1] by simp
    show "disk_table_used (the (gogoboot_disk_table_init ide0 1 ?h)) = 1"
      by (simp only: T [THEN conjunct2, THEN conjunct1] e)
    show "disk_table (the (gogoboot_disk_table_init ide0 1 ?h)) = disk_table ?h"
      by (rule T [THEN conjunct2, THEN conjunct2, THEN conjunct1])
  qed
qed

subsection \<open>The register writes of a transfer\<close>

lemma regp_eq_iff [simp]: "regp c r = regp c r' \<longleftrightarrow> r = r'"
  by (simp add: regp_def)

lemma program_chunk_writes:
  "writes_to (regp c r) (io_trace (program_chunk c d s n h))
     = writes_to (regp c r) (io_trace h) @ chunk_writes d r (s, chunk_size n)"
  by (cases r) (simp_all add: program_chunk_def write8_def Let_def)

lemma transfer_loop_writes:
  "transfer_loop c w buff k m h = Some (ok, buff', m', h')
     \<Longrightarrow> writes_to p (io_trace h') = writes_to p (io_trace h)"
proof (induction c w buff k m h rule: transfer_loop.induct)
  case (1 c w buff k m h)
  show ?case
  proof (cases "k > 0")
    case False
    then show ?thesis using "1.prems" by (subst (asm) transfer_loop.simps) simp
  next
    case True
    show ?thesis
    proof (cases "gogoboot_disk_wait c IDE_STATUS_DATAREQUEST h")
      case None
      then show ?thesis using "1.prems" True by (subst (asm) transfer_loop.simps) simp
    next
      case (Some r)
      obtain ok1 h1 where r: "r = (ok1, h1)" by (cases r)
      note wt = Some [unfolded r]
      have w1: "writes_to p (io_trace h1) = writes_to p (io_trace h)"
        using wait_frame [OF wt, of p] by simp
      show ?thesis
      proof (cases ok1)
        case False
        then have "h' = h1"
          using "1.prems" True wt by (subst (asm) transfer_loop.simps) simp
        then show ?thesis using w1 by simp
      next
        case ok: True
        show ?thesis
        proof (cases w)
          case wr: True
          have "transfer_loop c w (buff + 512) (k - 1) m (gogoboot_disk_write_sector_data c buff m h1)
                  = Some (ok, buff', m', h')"
            using "1.prems" True wt ok wr by (subst (asm) transfer_loop.simps) simp
          from "1.IH"(1) [OF True wt [symmetric, THEN sym] _ _ wr this]
          have "writes_to p (io_trace h')
                  = writes_to p (io_trace (gogoboot_disk_write_sector_data c buff m h1))"
            using ok by simp
          then show ?thesis
            using w1 by (simp add: gogoboot_disk_write_sector_data_eq)
        next
          case rd: False
          have "transfer_loop c w (buff + 512) (k - 1)
                  (fst (gogoboot_disk_read_sector_data c buff m h1))
                  (snd (gogoboot_disk_read_sector_data c buff m h1))
                  = Some (ok, buff', m', h')"
            using "1.prems" True wt ok rd by (subst (asm) transfer_loop.simps) simp
          from "1.IH"(2) [OF True wt [symmetric, THEN sym] _ _ rd this]
          have "writes_to p (io_trace h')
                  = writes_to p (io_trace (snd (gogoboot_disk_read_sector_data c buff m h1)))"
            using ok by simp
          then show ?thesis
            using w1 by (simp add: gogoboot_disk_read_sector_data_eq after_data_reads_def)
        qed
      qed
    qed
  qed
qed

lemma readwrite_loop_done:
  "\<not> 0 < n \<Longrightarrow> readwrite_loop c d w buff s n m h = Some (True, m, h)"
  by (subst readwrite_loop.simps) simp

lemma readwrite_loop_step:
  "0 < n \<Longrightarrow>
   readwrite_loop c d w buff s n m h =
     (case gogoboot_disk_wait c IDE_STATUS_READY (program_chunk c d s n h) of
        None \<Rightarrow> None
      | Some (ok, h2) \<Rightarrow>
          if \<not> ok then Some (False, m, h2)
          else
            (case transfer_loop c w buff (chunk_size n) m
                    (write8 (regp c command_reg) (rw_command w) h2) of
               None \<Rightarrow> None
             | Some (ok', buff', m', h3) \<Rightarrow>
                 if \<not> ok' then Some (False, m', h3)
                 else readwrite_loop c d w buff' (s + word_of_int (chunk_size n))
                        (n - chunk_size n) m' h3))"
  unfolding rw_command_def by (subst readwrite_loop.simps) (simp add: Let_def)

lemma chunks_done: "\<not> 0 < n \<Longrightarrow> chunks s n = []"
  by (subst chunks.simps) simp

lemma chunks_step:
  "0 < n \<Longrightarrow> chunks s n
     = (s, chunk_size n) # chunks (s + word_of_int (chunk_size n)) (n - chunk_size n)"
proof -
  have "min n 256 = chunk_size n" by (simp add: chunk_size_def min_def)
  then show "0 < n \<Longrightarrow> ?thesis" by (subst chunks.simps) simp
qed

lemma chunk_size_bounds: "0 < n \<Longrightarrow> 0 < chunk_size n \<and> chunk_size n \<le> 256 \<and> chunk_size n \<le> n"
  by (simp add: chunk_size_def)

lemma no_command_chunk_writes [simp]: "concat (map (chunk_writes d command_reg) xs) = []"
  by (induction xs) auto

lemma readwrite_loop_trace:
  "readwrite_loop c d w buff s n m h = Some (ok, m', h') \<Longrightarrow>
     \<exists>j j'. j \<le> length (chunks s n) \<and> (ok \<longrightarrow> j = length (chunks s n)) \<and> (0 < n \<longrightarrow> 0 < j)
          \<and> j' \<le> j \<and> (ok \<longrightarrow> j' = j) \<and> trace_grows c d w (chunks s n) j j' h h'"
proof (induction "nat n" arbitrary: n s buff m h rule: less_induct)
  case less
  show ?case
  proof (cases "0 < n")
    case False
    then have "ok" "h' = h"
      using less.prems by (simp_all add: readwrite_loop_done)
    then show ?thesis
      using False by (intro exI [of _ 0]) (simp add: chunks_done trace_grows_def)
  next
    case True
    note cs = chunks_step [OF True, of s]
    let ?h1 = "program_chunk c d s n h"
    note run = less.prems [unfolded readwrite_loop_step [OF True]]
    obtain ok1 h2 where w1: "gogoboot_disk_wait c IDE_STATUS_READY ?h1 = Some (ok1, h2)"
      using run by (cases "gogoboot_disk_wait c IDE_STATUS_READY ?h1") auto
    have t2: "writes_to (regp c r) (io_trace h2)
                = writes_to (regp c r) (io_trace h) @ chunk_writes d r (s, chunk_size n)" for r
      using wait_frame [OF w1, of "regp c r"] by (simp add: program_chunk_writes)
    show ?thesis
    proof (cases ok1)
      case False
      then have "\<not> ok" "h' = h2" using run w1 by simp_all
      then show ?thesis
        using t2 by (intro exI [of _ 1] exI [of _ 0]) (simp add: cs trace_grows_def)
    next
      case ready: True
      let ?h2c = "write8 (regp c command_reg) (rw_command w) h2"
      obtain ok2 buff3 m3 h3 where
        tl: "transfer_loop c w buff (chunk_size n) m ?h2c = Some (ok2, buff3, m3, h3)"
        using run w1 ready
        by (cases "transfer_loop c w buff (chunk_size n) m ?h2c") auto
      have t3: "writes_to (regp c r) (io_trace h3)
                  = writes_to (regp c r) (io_trace h) @ chunk_writes d r (s, chunk_size n)
                      @ (if r = command_reg then [rw_command w] else [])" for r
        using transfer_loop_writes [OF tl, of "regp c r"] t2 [of r] by (simp add: write8_def)
      show ?thesis
      proof (cases ok2)
        case False
        then have "\<not> ok" "h' = h3" using run w1 ready tl by simp_all
        then show ?thesis
          using t3 by (intro exI [of _ 1] exI [of _ 1]) (simp add: cs trace_grows_def)
      next
        case xfer: True
        let ?s' = "s + word_of_int (chunk_size n)" and ?n' = "n - chunk_size n"
        have rec: "readwrite_loop c d w buff3 ?s' ?n' m3 h3 = Some (ok, m', h')"
          using run w1 ready tl xfer by simp
        have "nat ?n' < nat n" using True chunk_size_bounds [OF True] by simp
        from less.hyps [OF this rec] obtain j j' where
          j: "j \<le> length (chunks ?s' ?n')" "ok \<longrightarrow> j = length (chunks ?s' ?n')"
             "j' \<le> j" "ok \<longrightarrow> j' = j" "trace_grows c d w (chunks ?s' ?n') j j' h3 h'"
          by blast
        have "trace_grows c d w (chunks s n) (Suc j) (Suc j') h h'"
          unfolding trace_grows_def
        proof
          fix r
          show "writes_to (regp c r) (io_trace h')
                  = writes_to (regp c r) (io_trace h)
                      @ concat (map (chunk_writes d r) (take (Suc j) (chunks s n)))
                      @ (if r = command_reg then replicate (Suc j') (rw_command w) else [])"
            using j(5) [unfolded trace_grows_def, rule_format, of r] t3 [of r]
            by (cases "r = command_reg") (simp_all add: cs)
        qed
        then show ?thesis
          using j(1-4) by (intro exI [of _ "Suc j"] exI [of _ "Suc j'"]) (simp add: cs)
      qed
    qed
  qed
qed

subsection \<open>The chunks of a request\<close>





lemma numeral_masks:
  "(0x0F :: u32) = mask 4" "(0xFF :: u32) = mask 8" "(0x0F :: u8) = mask 4"
  "(0xE0 :: u32) = push_bit 5 (mask 3)" "(0xF0 :: u32) = push_bit 4 (mask 4)"
  by (simp_all add: mask_eq_exp_minus_1)

lemma device_select_eq:
  "device_select d s = (ucast (drop_bit 24 s) AND 0x0F) OR (if disk d = 0 then 0xE0 else 0xF0)"
proof -
  have b: "(0xE0 :: u8) = push_bit 5 (mask 3)" "(0xF0 :: u8) = push_bit 4 (mask 4)"
    by (simp_all add: mask_eq_exp_minus_1)
  show ?thesis
    unfolding device_select_def numeral_masks b
    by (intro bit_word_eqI) (auto simp: bit_simps)
qed

lemma lba_bytes:
  "(ucast (drop_bit 16 s AND 0xFF) :: u8) = ucast (drop_bit 16 (s :: u32))"
  "(ucast (drop_bit 8 s AND 0xFF) :: u8) = ucast (drop_bit 8 s)"
  "(ucast (s AND 0xFF) :: u8) = ucast s"
  unfolding numeral_masks
  by (rule bit_word_eqI; auto simp: bit_simps)+



lemma device_select_example:
  "device_select (d\<lparr>disk := 0\<rparr>) 0x01234567 = 0xE0 OR 0x01"
  "device_select (d\<lparr>disk := 1\<rparr>) 0x01234567 = 0xF0 OR 0x01"
  by (simp_all add: device_select_def)

subsection \<open>Transfers from a device that is always ready\<close>

lemma status_at_after_data_reads [simp]:
  "status_at c (after_data_reads c n h) j = status_at c h j"
  by (simp add: status_at_def after_data_reads_def)

lemma status_at_trace_update [simp]:
  "status_at c (h\<lparr>io_trace := t\<rparr>) j = status_at c h j"
  by (simp add: status_at_def)

lemma status_at_program_chunk [simp]:
  "status_at c (program_chunk c d s n h) j = status_at c h j"
  by (simp add: program_chunk_def Let_def)

lemma always_ready_wait:
  assumes "always_ready c h"
  shows "gogoboot_disk_wait c IDE_STATUS_READY h
           = Some (True, after_polls c (Suc 0) 0 (poll_start c h))"
    and "gogoboot_disk_wait c IDE_STATUS_DATAREQUEST h
           = Some (True, after_polls c (Suc 0) 0 (poll_start c h))"
    and "always_ready c (after_polls c (Suc 0) 0 (poll_start c h))"
  using assms by (simp_all add: always_ready_def wait_first_poll status_at_shift)

lemma always_ready_steps [simp]:
  "always_ready c (write8 p v h) = always_ready c h"
  "always_ready c (program_chunk c d s n h) = always_ready c h"
  "always_ready c (gogoboot_disk_write_sector_data c buff m h) = always_ready c h"
  "always_ready c (snd (gogoboot_disk_read_sector_data c buff m h)) = always_ready c h"
  by (simp_all add: always_ready_def gogoboot_disk_write_sector_data_eq
      gogoboot_disk_read_sector_data_eq)

lemma transfer_loop_ready:
  "always_ready c h \<Longrightarrow>
     \<exists>buff' m' h'. transfer_loop c w buff k m h = Some (True, buff', m', h') \<and> always_ready c h'"
proof (induction "nat k" arbitrary: k buff m h)
  case 0
  then show ?case by (subst transfer_loop.simps) simp
next
  case (Suc x)
  then have k: "0 < k" and x: "x = nat (k - 1)" by simp_all
  note w = always_ready_wait [OF Suc.prems]
  show ?case
  proof (cases w)
    case True
    have "always_ready c (gogoboot_disk_write_sector_data c buff m
            (after_polls c (Suc 0) 0 (poll_start c h)))"
      using w(3) by simp
    from Suc.hyps(1) [OF x this, of "buff + 512" m] show ?thesis
      using k True w(2) by (subst transfer_loop.simps) simp
  next
    case False
    have "always_ready c (snd (gogoboot_disk_read_sector_data c buff m
            (after_polls c (Suc 0) 0 (poll_start c h))))"
      using w(3) by simp
    from Suc.hyps(1) [OF x this, of "buff + 512"
        "fst (gogoboot_disk_read_sector_data c buff m (after_polls c (Suc 0) 0 (poll_start c h)))"]
    show ?thesis
      using k False w(2) by (subst transfer_loop.simps) simp
  qed
qed

lemma readwrite_loop_ready:
  "always_ready c h \<Longrightarrow>
     \<exists>m' h'. readwrite_loop c d w buff s n m h = Some (True, m', h') \<and> always_ready c h'"
proof (induction "nat n" arbitrary: n s buff m h rule: less_induct)
  case less
  show ?case
  proof (cases "0 < n")
    case False
    then show ?thesis using less.prems by (simp add: readwrite_loop_done)
  next
    case True
    let ?h2 = "after_polls c (Suc 0) 0 (poll_start c (program_chunk c d s n h))"
    have r1: "always_ready c (program_chunk c d s n h)" using less.prems by simp
    note w = always_ready_wait [OF r1]
    have "always_ready c (write8 (regp c command_reg) (rw_command w) ?h2)"
      using w(3) by simp
    from transfer_loop_ready [OF this, of w buff "chunk_size n" m] obtain buff3 m3 h3 where
      tl: "transfer_loop c w buff (chunk_size n) m (write8 (regp c command_reg) (rw_command w) ?h2)
             = Some (True, buff3, m3, h3)" and r3: "always_ready c h3"
      by blast
    have "nat (n - chunk_size n) < nat n" using chunk_size_bounds [OF True] by simp
    from less.hyps [OF this r3, of buff3 "s + word_of_int (chunk_size n)" m3]
    show ?thesis
      using w(1) tl by (simp add: readwrite_loop_step [OF True])
  qed
qed

lemma always_ready_mock: "always_ready c (mock (script [] 0x58) dat tk used)"
  by (simp add: always_ready_def wait_success_def IDE_STATUS_BUSY_def IDE_STATUS_ERROR_def
      IDE_STATUS_READY_def IDE_STATUS_DATAREQUEST_def)


lemma concat_chunk_writes:
  "concat (map (chunk_writes d device_reg) cs) = map (\<lambda>(s, k). device_select d s) cs"
  "concat (map (chunk_writes d lbah_reg) cs) = map (\<lambda>(s, k). ucast (drop_bit 16 s)) cs"
  "concat (map (chunk_writes d lbam_reg) cs) = map (\<lambda>(s, k). ucast (drop_bit 8 s)) cs"
  "concat (map (chunk_writes d lbal_reg) cs) = map (\<lambda>(s, k). ucast s) cs"
  "concat (map (chunk_writes d nsect_reg) cs) = map (\<lambda>(s, k). nsect_value k) cs"
  by (induction cs; auto simp: lba_bytes)+

lemma gogoboot_disk_readwrite_valid:
  "0 \<le> disknr \<Longrightarrow> disknr < gogoboot_disk_get_disk_count h \<Longrightarrow>
     gogoboot_disk_readwrite disknr buff start N is_write m h
       = readwrite_loop (ctrl (disk_table h (nat disknr))) (disk_table h (nat disknr))
           is_write buff start N m h"
  by (simp add: gogoboot_disk_readwrite_def gogoboot_disk_get_disk_count_def Let_def)

lemma chunks_example:
  "chunks 0x123400 600 = [(0x123400, 256), (0x123500, 256), (0x123600, 88)]"
  by (simp add: chunks_step chunks_done chunk_size_def)

subsection \<open>Carrying out the steps of a transfer\<close>

lemma run_steps_append:
  "run_steps c d w (xs @ ys) st =
     (case run_steps c d w xs st of
        None \<Rightarrow> None
      | Some (ok, st') \<Rightarrow> if ok then run_steps c d w ys st' else Some (False, st'))"
  by (induction xs arbitrary: st) (auto split: option.splits)

lemma sector_steps_done: "\<not> 0 < k \<Longrightarrow> sector_steps k = []"
  by (simp add: sector_steps_def)

lemma sector_steps_step:
  "0 < k \<Longrightarrow> sector_steps k = WaitFor IDE_STATUS_DATAREQUEST # Sector # sector_steps (k - 1)"
proof -
  assume "0 < k"
  then have "nat k = Suc (nat (k - 1))" by simp
  then show ?thesis by (simp add: sector_steps_def)
qed

lemma transfer_loop_steps:
  "transfer_loop c w buff k m h = run_steps c d w (sector_steps k) (buff, m, h)"
proof (induction "nat k" arbitrary: k buff m h w)
  case 0
  then show ?case by (subst transfer_loop.simps) (simp add: sector_steps_done)
next
  case (Suc x)
  then have k: "0 < k" and x: "x = nat (k - 1)" by simp_all
  note IH = Suc.hyps(1) [OF x]
  show ?case
    by (subst transfer_loop.simps)
       (simp add: k sector_steps_step IH split: option.splits)
qed

lemma chunk_size_idem: "chunk_size (chunk_size n) = chunk_size n"
  by (simp add: chunk_size_def)

lemma program_chunk_chunk_size:
  "program_chunk c d s (chunk_size n) h = program_chunk c d s n h"
  by (simp add: program_chunk_def chunk_size_idem)

lemma request_steps_done: "\<not> 0 < n \<Longrightarrow> request_steps s n = []"
  by (simp add: request_steps_def chunks_done)

lemma request_steps_step:
  "0 < n \<Longrightarrow> request_steps s n =
     Program s (chunk_size n) # WaitFor IDE_STATUS_READY # Command #
       sector_steps (chunk_size n)
         @ request_steps (s + word_of_int (chunk_size n)) (n - chunk_size n)"
  by (simp add: request_steps_def chunks_step chunk_steps_def)

lemma readwrite_loop_steps:
  "readwrite_loop c d w buff s n m h =
     map_option (\<lambda>(ok, b, m', h'). (ok, m', h'))
       (run_steps c d w (request_steps s n) (buff, m, h))"
proof (induction "nat n" arbitrary: n s buff m h w rule: less_induct)
  case less
  show ?case
  proof (cases "0 < n")
    case False
    then show ?thesis by (simp add: readwrite_loop_done request_steps_done)
  next
    case True
    have dec: "nat (n - chunk_size n) < nat n" using chunk_size_bounds [OF True] by simp
    note IH = less.hyps [OF dec]
    show ?thesis
      by (simp add: readwrite_loop_step [OF True] request_steps_step [OF True]
            program_chunk_chunk_size run_steps_append transfer_loop_steps [where d = d] IH
          split: option.splits)
  qed
qed

lemma run_steps_wait_fails:
  assumes "i < length xs" and "xs ! i = WaitFor bits"
    and "run_steps c d w (take i xs) st = Some (True, b, m, h)"
    and "gogoboot_disk_wait c bits h = Some (False, hf)"
  shows "run_steps c d w xs st = Some (False, b, m, hf)"
proof -
  have "xs = take i xs @ WaitFor bits # drop (Suc i) xs"
    using id_take_nth_drop [OF assms(1)] assms(2) by simp
  then have "run_steps c d w xs st = run_steps c d w (take i xs @ WaitFor bits # drop (Suc i) xs) st"
    by simp
  also have "\<dots> = Some (False, b, m, hf)"
    using assms(3,4) by (simp add: run_steps_append)
  finally show ?thesis .
qed

lemma run_steps_False:
  "run_steps c d w xs st = Some (False, b', m', h') \<Longrightarrow>
     \<exists>i bits hi. i < length xs \<and> xs ! i = WaitFor bits
        \<and> run_steps c d w (take i xs) st = Some (True, b', m', hi)
        \<and> gogoboot_disk_wait c bits hi = Some (False, h')"
proof (induction xs arbitrary: st)
  case Nil
  then show ?case by simp
next
  case (Cons x xs)
  obtain b m h where st: "st = (b, m, h)" by (cases st)
  obtain ok st1 where ds: "do_step c d w x st = Some (ok, st1)"
    using Cons.prems by (cases "do_step c d w x st") auto
  show ?case
  proof (cases ok)
    case True
    then have "run_steps c d w xs st1 = Some (False, b', m', h')"
      using Cons.prems ds by simp
    from Cons.IH [OF this] obtain i bits hi where
      i: "i < length xs" "xs ! i = WaitFor bits"
         "run_steps c d w (take i xs) st1 = Some (True, b', m', hi)"
         "gogoboot_disk_wait c bits hi = Some (False, h')"
      by blast
    show ?thesis
      using i ds True
      by (intro exI [of _ "Suc i"] exI [of _ bits] exI [of _ hi]) simp
  next
    case False
    then have r: "st1 = (b', m', h')" using Cons.prems ds by simp
    from ds False r st obtain bits where x: "x = WaitFor bits"
      by (cases x) (auto split: if_splits)
    have "gogoboot_disk_wait c bits h = Some (False, h')" "b' = b" "m' = m"
      using ds False r st x by (auto split: option.splits)
    then show ?thesis
      using x st
      by (intro exI [of _ 0] exI [of _ bits] exI [of _ h]) simp
  qed
qed

lemma do_step_commands:
  "do_step c d w x (b, m, h) = Some (ok, b', m', h') \<Longrightarrow>
     writes_to (regp c command_reg) (io_trace h')
       = writes_to (regp c command_reg) (io_trace h)
           @ (if x = Command then [rw_command w] else [])"
proof (cases x)
  case (Program s k)
  then show "do_step c d w x (b, m, h) = Some (ok, b', m', h') \<Longrightarrow> ?thesis"
    by (auto simp: program_chunk_writes)
next
  case (WaitFor bits)
  then show "do_step c d w x (b, m, h) = Some (ok, b', m', h') \<Longrightarrow> ?thesis"
    using wait_frame [of c bits h ok h' "regp c command_reg"]
    by (auto split: option.splits)
next
  case Command
  then show "do_step c d w x (b, m, h) = Some (ok, b', m', h') \<Longrightarrow> ?thesis"
    by (auto simp: write8_def)
next
  case Sector
  then show "do_step c d w x (b, m, h) = Some (ok, b', m', h') \<Longrightarrow> ?thesis"
    by (auto simp: gogoboot_disk_write_sector_data_eq gogoboot_disk_read_sector_data_eq
        after_data_reads_def split: if_splits)
qed

lemma run_steps_commands:
  "run_steps c d w xs (b, m, h) = Some (True, b', m', h') \<Longrightarrow>
     writes_to (regp c command_reg) (io_trace h')
       = writes_to (regp c command_reg) (io_trace h)
           @ replicate (length (filter (\<lambda>x. x = Command) xs)) (rw_command w)"
proof (induction xs arbitrary: b m h)
  case Nil
  then show ?case by simp
next
  case (Cons x xs)
  obtain ok b1 m1 h1 where ds: "do_step c d w x (b, m, h) = Some (ok, b1, m1, h1)"
    using Cons.prems by (cases "do_step c d w x (b, m, h)") auto
  then have ok: ok and rest: "run_steps c d w xs (b1, m1, h1) = Some (True, b', m', h')"
    using Cons.prems by (auto split: if_splits)
  show ?case
    using Cons.IH [OF rest] do_step_commands [OF ds] by simp
qed

lemma data_accesses_wait_result:
  "data_accesses c (snd (wait_result_at c bits (poll_start c h) k)) = data_accesses c h"
  by (simp add: data_accesses_def wait_result_at_def after_polls_def printf_def poll_start_eq Let_def)

lemma data_accesses_wait:
  assumes "gogoboot_disk_wait c bits h = Some (ok, h')"
  shows "data_accesses c h' = data_accesses c h"
proof -
  from assms have "wait_loop c bits (wait_deadline c h) (poll_start c h) = Some (ok, h')"
    by (simp add: gogoboot_disk_wait_eq)
  from wait_loop_Some_decided [OF this] obtain k where
    "(ok, h') = wait_result_at c bits (poll_start c h) k" by blast
  then have "h' = snd (wait_result_at c bits (poll_start c h) k)" by (metis snd_conv)
  then show ?thesis by (simp only: data_accesses_wait_result)
qed

lemma filter_data_writes:
  "filter (is_data_access (regp c data_reg)) (data_writes c m b n) = data_writes c m b n"
  by (simp add: data_writes_def filter_map comp_def)

lemma length_data_writes: "length (data_writes c m b n) = n"
  by (simp add: data_writes_def)

lemma do_step_data:
  "do_step c d w x (b, m, h) = Some (ok, b', m', h') \<Longrightarrow>
     data_accesses c h' = data_accesses c h + (if x = Sector then 256 else 0)"
proof (cases x)
  case (Program s k)
  then show "do_step c d w x (b, m, h) = Some (ok, b', m', h') \<Longrightarrow> ?thesis"
    by (auto simp: data_accesses_def program_chunk_def write8_def Let_def)
next
  case (WaitFor bits)
  then show "do_step c d w x (b, m, h) = Some (ok, b', m', h') \<Longrightarrow> ?thesis"
    using data_accesses_wait [of c bits h ok h']
    by (auto split: option.splits)
next
  case Command
  then show "do_step c d w x (b, m, h) = Some (ok, b', m', h') \<Longrightarrow> ?thesis"
    by (auto simp: data_accesses_def write8_def)
next
  case Sector
  then show "do_step c d w x (b, m, h) = Some (ok, b', m', h') \<Longrightarrow> ?thesis"
    by (auto simp: data_accesses_def gogoboot_disk_write_sector_data_eq
        gogoboot_disk_read_sector_data_eq after_data_reads_def filter_data_writes
        length_data_writes split: if_splits)
qed

lemma run_steps_data:
  "run_steps c d w xs (b, m, h) = Some (True, b', m', h') \<Longrightarrow>
     data_accesses c h' = data_accesses c h + 256 * length (filter (\<lambda>x. x = Sector) xs)"
proof (induction xs arbitrary: b m h)
  case Nil
  then show ?case by simp
next
  case (Cons x xs)
  obtain ok b1 m1 h1 where ds: "do_step c d w x (b, m, h) = Some (ok, b1, m1, h1)"
    using Cons.prems by (cases "do_step c d w x (b, m, h)") auto
  then have ok: ok and rest: "run_steps c d w xs (b1, m1, h1) = Some (True, b', m', h')"
    using Cons.prems by (auto split: if_splits)
  show ?case
    using Cons.IH [OF rest] do_step_data [OF ds] by simp
qed

subsection \<open>Transfers on a machine whose clock runs\<close>

lemma clock_runs_cong:
  "ticks_src h' = ticks_src h \<Longrightarrow> TIMER_HZ h' = TIMER_HZ h \<Longrightarrow> clock_runs c h' = clock_runs c h"
  by (simp add: clock_runs_def wait_deadline_eq expired_at_def ticks_at_def poll_start_eq Let_def)

lemma wait_result_clock:
  "ticks_src (snd (wait_result_at c bits (poll_start c h) k)) = ticks_src h
   \<and> TIMER_HZ (snd (wait_result_at c bits (poll_start c h) k)) = TIMER_HZ h"
  by (simp add: wait_result_at_def after_polls_def printf_def poll_start_eq Let_def)

lemma wait_returns:
  assumes "clock_runs c h"
  shows "\<exists>ok h'. gogoboot_disk_wait c bits h = Some (ok, h') \<and> clock_runs c h'"
proof -
  have "h\<lparr>tick_reads := tick_reads h\<rparr> = h" by simp
  with assms have "\<exists>k. expired_at (wait_deadline c h) (poll_start c h) k"
    unfolding clock_runs_def by (metis)
  then have "\<exists>k. decided_at c bits (wait_deadline c h) (poll_start c h) k"
    by (auto simp: decided_at_def)
  then obtain k where k: "decided_at c bits (wait_deadline c h) (poll_start c h) k"
    "\<forall>j<k. \<not> decided_at c bits (wait_deadline c h) (poll_start c h) j"
    using exists_least_iff [of "decided_at c bits (wait_deadline c h) (poll_start c h)"] by blast
  have r: "gogoboot_disk_wait c bits h = Some (wait_result_at c bits (poll_start c h) k)"
    using wait_loop_returns [OF k(2) k(1)] by (simp add: gogoboot_disk_wait_eq)
  have "clock_runs c (snd (wait_result_at c bits (poll_start c h) k))"
    using assms wait_result_clock [of c bits h k] clock_runs_cong by blast
  then show ?thesis
    using r by (cases "wait_result_at c bits (poll_start c h) k") auto
qed

lemma do_step_returns:
  assumes "clock_runs c h"
  shows "\<exists>ok b' m' h'. do_step c d w x (b, m, h) = Some (ok, b', m', h') \<and> clock_runs c h'"
proof (cases x)
  case (Program s k)
  have "clock_runs c (program_chunk c d s k h)"
    using assms by (subst clock_runs_cong [of _ h]) (simp_all add: program_chunk_def write8_def Let_def)
  then show ?thesis using Program by auto
next
  case (WaitFor bits)
  from wait_returns [OF assms, of bits] show ?thesis using WaitFor by auto
next
  case Command
  have "clock_runs c (write8 (regp c command_reg) (rw_command w) h)"
    using assms by (subst clock_runs_cong [of _ h]) (simp_all add: write8_def)
  then show ?thesis using Command by auto
next
  case Sector
  have "clock_runs c (gogoboot_disk_write_sector_data c b m h)"
    using assms by (subst clock_runs_cong [of _ h]) (simp_all add: gogoboot_disk_write_sector_data_eq)
  moreover have "clock_runs c (snd (gogoboot_disk_read_sector_data c b m h))"
    using assms by (subst clock_runs_cong [of _ h])
      (simp_all add: gogoboot_disk_read_sector_data_eq after_data_reads_def)
  ultimately show ?thesis using Sector
    by (cases "gogoboot_disk_read_sector_data c b m h") auto
qed

lemma run_steps_returns:
  "clock_runs c h \<Longrightarrow> \<exists>r. run_steps c d w xs (b, m, h) = Some r"
proof (induction xs arbitrary: b m h)
  case Nil
  then show ?case by auto
next
  case (Cons x xs)
  from do_step_returns [OF Cons.prems, of d w x b m] obtain ok b1 m1 h1 where
    ds: "do_step c d w x (b, m, h) = Some (ok, b1, m1, h1)" and cr: "clock_runs c h1"
    by blast
  from Cons.IH [OF cr, of b1 m1] show ?case
    using ds by auto
qed

lemma readwrite_loop_returns:
  "clock_runs c h \<Longrightarrow> \<exists>ok m' h'. readwrite_loop c d w buff s n m h = Some (ok, m', h')"
  using run_steps_returns [of c h d w "request_steps s n" buff m]
  by (auto simp: readwrite_loop_steps)

lemma clock_runs_mock: "clock_runs c (mock st dat (clock_every 1) used)"
  unfolding clock_runs_def
proof
  fix n
  have "expired_at (wait_deadline c ((mock st dat (clock_every 1) used)\<lparr>tick_reads := n\<rparr>))
          (poll_start c ((mock st dat (clock_every 1) used)\<lparr>tick_reads := n\<rparr>)) 600"
    by (simp add: wait_deadline_eq expired_at_def ticks_at_def poll_start_eq Let_def mock_def
        clock_every_def)
  then show "\<exists>k. expired_at (wait_deadline c ((mock st dat (clock_every 1) used)\<lparr>tick_reads := n\<rparr>))
          (poll_start c ((mock st dat (clock_every 1) used)\<lparr>tick_reads := n\<rparr>)) k" ..
qed

subsection \<open>Chunked transfers\<close>

lemma readwrite_loop_registers:
  assumes "readwrite_loop c d is_write buff start N m h = Some (ok, m', h')"
  shows "\<exists>j\<le>length (chunks start N).
       (ok \<longrightarrow> j = length (chunks start N)) \<and> (0 < N \<longrightarrow> 0 < j)
     \<and> writes_to (regp c nsect_reg) (io_trace h')
         = writes_to (regp c nsect_reg) (io_trace h)
             @ map (\<lambda>(s, k). nsect_value k) (take j (chunks start N))
     \<and> writes_to (regp c device_reg) (io_trace h')
         = writes_to (regp c device_reg) (io_trace h)
             @ map (\<lambda>(s, k). device_select d s) (take j (chunks start N))
     \<and> writes_to (regp c lbah_reg) (io_trace h')
         = writes_to (regp c lbah_reg) (io_trace h)
             @ map (\<lambda>(s, k). ucast (drop_bit 16 s)) (take j (chunks start N))
     \<and> writes_to (regp c lbam_reg) (io_trace h')
         = writes_to (regp c lbam_reg) (io_trace h)
             @ map (\<lambda>(s, k). ucast (drop_bit 8 s)) (take j (chunks start N))
     \<and> writes_to (regp c lbal_reg) (io_trace h')
         = writes_to (regp c lbal_reg) (io_trace h)
             @ map (\<lambda>(s, k). ucast s) (take j (chunks start N))"
proof -
  from readwrite_loop_trace [OF assms] obtain j j' where
    j: "j \<le> length (chunks start N)" "ok \<longrightarrow> j = length (chunks start N)" "0 < N \<longrightarrow> 0 < j"
       "trace_grows c d is_write (chunks start N) j j' h h'"
    by blast
  have regs: "writes_to (regp c r) (io_trace h')
                = writes_to (regp c r) (io_trace h)
                    @ concat (map (chunk_writes d r) (take j (chunks start N)))"
    if "r \<noteq> command_reg" for r
    using j(4) [unfolded trace_grows_def, rule_format, of r] that by simp
  show ?thesis
    using j(1-3) regs [of nsect_reg] regs [of device_reg] regs [of lbah_reg] regs [of lbam_reg]
      regs [of lbal_reg]
    unfolding concat_chunk_writes
    by (intro exI [of _ j] conjI) simp_all
qed









text \<open>
  C5. Programming a chunk that addresses sector \<open>s\<close> with \<open>n\<close> sectors remaining
  writes, from any state, \<open>((s >> 24) & 0x0F) | 0xE0\<close> to the device register when
  the disk is device 0 and \<open>((s >> 24) & 0x0F) | 0xF0\<close> otherwise, bits 23-16, 15-8
  and 7-0 of \<open>s\<close> to the LBA-high, LBA-mid and LBA-low registers, and the chunk size
  to the sector-count register, 0 when the chunk has 256 sectors. On a machine
  whose tick counter keeps advancing, every transfer on a registered disk returns; the
  chunks it programmed are the first \<open>j\<close> chunks of the request (at least one when
  \<open>N > 0\<close>, all of them when it returns true, as it does when the device is ready at
  every wait), and the values it wrote to each of the five registers are, chunk by
  chunk and in order, the values above. For sector 0x01234567 the device register
  value is \<open>0xE0 | 0x01\<close> for device 0 and \<open>0xF0 | 0x01\<close> for device 1.
\<close>

theorem chunk_register_encoding:
  assumes "0 \<le> disknr" and "disknr < gogoboot_disk_get_disk_count h"
    and "d = disk_table h (nat disknr)" and "c = ctrl d"
    and "clock_runs c h"
  shows "\<exists>ok m' h'.
       gogoboot_disk_readwrite disknr buff start N is_write m h = Some (ok, m', h')
     \<and> (always_ready c h \<longrightarrow> ok)
     \<and> (\<exists>j\<le>length (chunks start N).
          (ok \<longrightarrow> j = length (chunks start N)) \<and> (0 < N \<longrightarrow> 0 < j)
        \<and> writes_to (regp c device_reg) (io_trace h')
            = writes_to (regp c device_reg) (io_trace h)
                @ map (\<lambda>(s, k). (ucast (drop_bit 24 s) AND 0x0F) OR (if disk d = 0 then 0xE0 else 0xF0))
                    (take j (chunks start N))
        \<and> writes_to (regp c lbah_reg) (io_trace h')
            = writes_to (regp c lbah_reg) (io_trace h)
                @ map (\<lambda>(s, k). ucast (drop_bit 16 s)) (take j (chunks start N))
        \<and> writes_to (regp c lbam_reg) (io_trace h')
            = writes_to (regp c lbam_reg) (io_trace h)
                @ map (\<lambda>(s, k). ucast (drop_bit 8 s)) (take j (chunks start N))
        \<and> writes_to (regp c lbal_reg) (io_trace h')
            = writes_to (regp c lbal_reg) (io_trace h)
                @ map (\<lambda>(s, k). ucast s) (take j (chunks start N))
        \<and> writes_to (regp c nsect_reg) (io_trace h')
            = writes_to (regp c nsect_reg) (io_trace h)
                @ map (\<lambda>(s, k). if k = 256 then 0 else word_of_int k) (take j (chunks start N)))
     \<and> (\<forall>s n hh.
          writes_to (regp c device_reg) (io_trace (program_chunk c d s n hh))
            = writes_to (regp c device_reg) (io_trace hh)
                @ [(ucast (drop_bit 24 s) AND 0x0F) OR (if disk d = 0 then 0xE0 else 0xF0)]
        \<and> writes_to (regp c lbah_reg) (io_trace (program_chunk c d s n hh))
            = writes_to (regp c lbah_reg) (io_trace hh) @ [ucast (drop_bit 16 s)]
        \<and> writes_to (regp c lbam_reg) (io_trace (program_chunk c d s n hh))
            = writes_to (regp c lbam_reg) (io_trace hh) @ [ucast (drop_bit 8 s)]
        \<and> writes_to (regp c lbal_reg) (io_trace (program_chunk c d s n hh))
            = writes_to (regp c lbal_reg) (io_trace hh) @ [ucast s]
        \<and> writes_to (regp c nsect_reg) (io_trace (program_chunk c d s n hh))
            = writes_to (regp c nsect_reg) (io_trace hh)
                @ [if n \<ge> 256 then 0 else word_of_int n])
     \<and> device_select (d\<lparr>disk := 0\<rparr>) 0x01234567 = 0xE0 OR 0x01
     \<and> device_select (d\<lparr>disk := 1\<rparr>) 0x01234567 = 0xF0 OR 0x01"
proof -
  have rw: "gogoboot_disk_readwrite disknr buff start N is_write m h
              = readwrite_loop c d is_write buff start N m h"
    using assms by (simp add: gogoboot_disk_readwrite_valid)
  from readwrite_loop_returns [OF assms(5)] obtain ok m' h' where
    run: "readwrite_loop c d is_write buff start N m h = Some (ok, m', h')"
    by blast
  have ready: "always_ready c h \<longrightarrow> ok"
    using readwrite_loop_ready [of c h d is_write buff start N m] run by auto
  have dev: "(\<lambda>(s, k). device_select d s)
               = (\<lambda>(s :: u32, k :: int). (ucast (drop_bit 24 s) AND 0x0F)
                                              OR (if disk d = 0 then 0xE0 else 0xF0))"
    by (simp add: device_select_eq)
  have ns: "(\<lambda>(s :: u32, k). nsect_value k) = (\<lambda>(s, k). if k = 256 then 0 else word_of_int k)"
    by (simp add: nsect_value_def)
  from readwrite_loop_registers [OF run, unfolded dev ns] obtain j where
    j: "j \<le> length (chunks start N)" "ok \<longrightarrow> j = length (chunks start N)" "0 < N \<longrightarrow> 0 < j"
    "writes_to (regp c nsect_reg) (io_trace h')
         = writes_to (regp c nsect_reg) (io_trace h)
             @ map (\<lambda>(s, k). if k = 256 then 0 else word_of_int k) (take j (chunks start N))"
    "writes_to (regp c device_reg) (io_trace h')
         = writes_to (regp c device_reg) (io_trace h)
             @ map (\<lambda>(s, k). (ucast (drop_bit 24 s) AND 0x0F) OR (if disk d = 0 then 0xE0 else 0xF0))
                 (take j (chunks start N))"
    "writes_to (regp c lbah_reg) (io_trace h')
         = writes_to (regp c lbah_reg) (io_trace h)
             @ map (\<lambda>(s, k). ucast (drop_bit 16 s)) (take j (chunks start N))"
    "writes_to (regp c lbam_reg) (io_trace h')
         = writes_to (regp c lbam_reg) (io_trace h)
             @ map (\<lambda>(s, k). ucast (drop_bit 8 s)) (take j (chunks start N))"
    "writes_to (regp c lbal_reg) (io_trace h')
         = writes_to (regp c lbal_reg) (io_trace h)
             @ map (\<lambda>(s, k). ucast s) (take j (chunks start N))"
    by blast
  have regs: "\<exists>j\<le>length (chunks start N).
          (ok \<longrightarrow> j = length (chunks start N)) \<and> (0 < N \<longrightarrow> 0 < j)
        \<and> writes_to (regp c device_reg) (io_trace h')
            = writes_to (regp c device_reg) (io_trace h)
                @ map (\<lambda>(s, k). (ucast (drop_bit 24 s) AND 0x0F) OR (if disk d = 0 then 0xE0 else 0xF0))
                    (take j (chunks start N))
        \<and> writes_to (regp c lbah_reg) (io_trace h')
            = writes_to (regp c lbah_reg) (io_trace h)
                @ map (\<lambda>(s, k). ucast (drop_bit 16 s)) (take j (chunks start N))
        \<and> writes_to (regp c lbam_reg) (io_trace h')
            = writes_to (regp c lbam_reg) (io_trace h)
                @ map (\<lambda>(s, k). ucast (drop_bit 8 s)) (take j (chunks start N))
        \<and> writes_to (regp c lbal_reg) (io_trace h')
            = writes_to (regp c lbal_reg) (io_trace h)
                @ map (\<lambda>(s, k). ucast s) (take j (chunks start N))
        \<and> writes_to (regp c nsect_reg) (io_trace h')
            = writes_to (regp c nsect_reg) (io_trace h)
                @ map (\<lambda>(s, k). if k = 256 then 0 else word_of_int k) (take j (chunks start N))"
    using j by (intro exI [of _ j] conjI) simp_all
  have one: "\<forall>s n hh.
          writes_to (regp c device_reg) (io_trace (program_chunk c d s n hh))
            = writes_to (regp c device_reg) (io_trace hh)
                @ [(ucast (drop_bit 24 s) AND 0x0F) OR (if disk d = 0 then 0xE0 else 0xF0)]
        \<and> writes_to (regp c lbah_reg) (io_trace (program_chunk c d s n hh))
            = writes_to (regp c lbah_reg) (io_trace hh) @ [ucast (drop_bit 16 s)]
        \<and> writes_to (regp c lbam_reg) (io_trace (program_chunk c d s n hh))
            = writes_to (regp c lbam_reg) (io_trace hh) @ [ucast (drop_bit 8 s)]
        \<and> writes_to (regp c lbal_reg) (io_trace (program_chunk c d s n hh))
            = writes_to (regp c lbal_reg) (io_trace hh) @ [ucast s]
        \<and> writes_to (regp c nsect_reg) (io_trace (program_chunk c d s n hh))
            = writes_to (regp c nsect_reg) (io_trace hh)
                @ [if n \<ge> 256 then 0 else word_of_int n]"
    by (simp add: program_chunk_writes device_select_eq lba_bytes nsect_value_def chunk_size_def)
  show ?thesis
    unfolding rw
    using run ready regs one device_select_example [of d]
    by (intro exI [of _ ok] exI [of _ m'] exI [of _ h']) blast
qed

theorem chunk_register_encoding_witness:
  "writes_to (regp ide0 device_reg) (io_trace (snd (snd (the
      (gogoboot_disk_readwrite 1 0 0x01234567 600 True pattern_mem
        (mock (script [] 0x58) no_data (clock_every 1) 2)))))) = [0xF1, 0xF1, 0xF1]
   \<and> writes_to (regp ide0 lbah_reg) (io_trace (snd (snd (the
      (gogoboot_disk_readwrite 1 0 0x01234567 600 True pattern_mem
        (mock (script [] 0x58) no_data (clock_every 1) 2)))))) = [0x23, 0x23, 0x23]
   \<and> writes_to (regp ide0 lbam_reg) (io_trace (snd (snd (the
      (gogoboot_disk_readwrite 1 0 0x01234567 600 True pattern_mem
        (mock (script [] 0x58) no_data (clock_every 1) 2)))))) = [0x45, 0x46, 0x47]
   \<and> writes_to (regp ide0 lbal_reg) (io_trace (snd (snd (the
      (gogoboot_disk_readwrite 1 0 0x01234567 600 True pattern_mem
        (mock (script [] 0x58) no_data (clock_every 1) 2)))))) = [0x67, 0x67, 0x67]
   \<and> writes_to (regp ide0 nsect_reg) (io_trace (snd (snd (the
      (gogoboot_disk_readwrite 1 0 0x01234567 600 True pattern_mem
        (mock (script [] 0x58) no_data (clock_every 1) 2)))))) = [0, 0, 88]"
proof -
  define h where "h = mock (script [] 0x58) no_data (clock_every 1) 2"
  define d where "d = disk_table h (nat 1)"
  have v: "(0::int) \<le> 1" "1 < gogoboot_disk_get_disk_count h"
    by (simp_all add: gogoboot_disk_get_disk_count_def h_def mock_def)
  have c: "ide0 = ctrl d" by (simp add: d_def h_def mock_def ide0_def)
  have dd: "disk d \<noteq> 0" by (simp add: d_def h_def mock_def)
  have clk: "clock_runs ide0 h" unfolding h_def by (rule clock_runs_mock)
  have rdy: "always_ready ide0 h" unfolding h_def by (rule always_ready_mock)
  have cs: "chunks 0x01234567 600 = [(0x01234567, 256), (0x01234667, 256), (0x01234767, 88)]"
    by (simp add: chunks_step chunks_done chunk_size_def)
  have t0: "io_trace h = []" by (simp add: h_def mock_def)
  from chunk_register_encoding [OF v d_def c clk, of 0 "0x01234567" 600 True pattern_mem] rdy
  obtain ok m' h' j where
    run: "gogoboot_disk_readwrite 1 0 0x01234567 600 True pattern_mem h = Some (ok, m', h')"
    and ok: ok
    and j: "ok \<longrightarrow> j = length (chunks 0x01234567 600)"
    and T: "writes_to (regp ide0 device_reg) (io_trace h')
         = writes_to (regp ide0 device_reg) (io_trace h)
             @ map (\<lambda>(s, k). (ucast (drop_bit 24 s) AND 0x0F) OR (if disk d = 0 then 0xE0 else 0xF0))
                 (take j (chunks 0x01234567 600))"
       "writes_to (regp ide0 lbah_reg) (io_trace h')
         = writes_to (regp ide0 lbah_reg) (io_trace h)
             @ map (\<lambda>(s, k). ucast (drop_bit 16 s)) (take j (chunks 0x01234567 600))"
       "writes_to (regp ide0 lbam_reg) (io_trace h')
         = writes_to (regp ide0 lbam_reg) (io_trace h)
             @ map (\<lambda>(s, k). ucast (drop_bit 8 s)) (take j (chunks 0x01234567 600))"
       "writes_to (regp ide0 lbal_reg) (io_trace h')
         = writes_to (regp ide0 lbal_reg) (io_trace h)
             @ map (\<lambda>(s, k). ucast s) (take j (chunks 0x01234567 600))"
       "writes_to (regp ide0 nsect_reg) (io_trace h')
         = writes_to (regp ide0 nsect_reg) (io_trace h)
             @ map (\<lambda>(s, k). if k = 256 then 0 else word_of_int k) (take j (chunks 0x01234567 600))"
    by blast
  have jl: "j = length (chunks 0x01234567 600)" using j ok by simp
  have "writes_to (regp ide0 device_reg) (io_trace (snd (snd (the
      (gogoboot_disk_readwrite 1 0 0x01234567 600 True pattern_mem h))))) = [0xF1, 0xF1, 0xF1]
   \<and> writes_to (regp ide0 lbah_reg) (io_trace (snd (snd (the
      (gogoboot_disk_readwrite 1 0 0x01234567 600 True pattern_mem h))))) = [0x23, 0x23, 0x23]
   \<and> writes_to (regp ide0 lbam_reg) (io_trace (snd (snd (the
      (gogoboot_disk_readwrite 1 0 0x01234567 600 True pattern_mem h))))) = [0x45, 0x46, 0x47]
   \<and> writes_to (regp ide0 lbal_reg) (io_trace (snd (snd (the
      (gogoboot_disk_readwrite 1 0 0x01234567 600 True pattern_mem h))))) = [0x67, 0x67, 0x67]
   \<and> writes_to (regp ide0 nsect_reg) (io_trace (snd (snd (the
      (gogoboot_disk_readwrite 1 0 0x01234567 600 True pattern_mem h))))) = [0, 0, 88]"
    using T dd unfolding run option.sel prod.sel t0 jl cs
    by simp
  then show ?thesis unfolding h_def .
qed

subsection \<open>Failed waits\<close>

lemma transfer_loop_drq_fails:
  "0 < k \<Longrightarrow> gogoboot_disk_wait c IDE_STATUS_DATAREQUEST h = Some (False, h1)
     \<Longrightarrow> transfer_loop c w buff k m h = Some (False, buff, m, h1)"
  by (subst transfer_loop.simps) simp

lemma readwrite_loop_ready_fails:
  "0 < n \<Longrightarrow> gogoboot_disk_wait c IDE_STATUS_READY (program_chunk c d s n h) = Some (False, h2)
     \<Longrightarrow> readwrite_loop c d w buff s n m h = Some (False, m, h2)"
  by (simp add: readwrite_loop_step)

lemma readwrite_loop_transfer_fails:
  "0 < n \<Longrightarrow> gogoboot_disk_wait c IDE_STATUS_READY (program_chunk c d s n h) = Some (True, h2)
     \<Longrightarrow> transfer_loop c w buff (chunk_size n) m (write8 (regp c command_reg) (rw_command w) h2)
           = Some (False, b3, m3, h3)
     \<Longrightarrow> readwrite_loop c d w buff s n m h = Some (False, m3, h3)"
  by (simp add: readwrite_loop_step)

lemma wait_timeout_result:
  assumes "\<forall>j<k. \<not> decided_at c bits (wait_deadline c h) (poll_start c h) j"
    and "\<not> wait_success bits (status_at c (poll_start c h) k)"
    and "\<not> wait_error (status_at c (poll_start c h) k)"
    and "expired_at (wait_deadline c h) (poll_start c h) k"
  shows "gogoboot_disk_wait c bits h
           = Some (False, printf (IDE_timeout (status_at c (poll_start c h) k))
                            (after_polls c (Suc k) (Suc k) (poll_start c h)))"
proof -
  have "decided_at c bits (wait_deadline c h) (poll_start c h) k"
    using assms(4) by (simp add: decided_at_def)
  from wait_loop_returns [OF assms(1) this] show ?thesis
    using assms(2,3) by (simp add: gogoboot_disk_wait_eq wait_result_at_def)
qed

lemma wait_first_error:
  assumes "\<not> wait_success bits (status_at c h 0)" and "wait_error (status_at c h 0)"
  shows "gogoboot_disk_wait c bits h = Some (False, after_polls c (Suc 0) 0 (poll_start c h))"
proof -
  have "wait_loop c bits (wait_deadline c h) (poll_start c h)
          = Some (wait_result_at c bits (poll_start c h) 0)"
    using assms by (intro wait_loop_returns) (simp_all add: decided_at_def)
  then show ?thesis using assms by (simp add: gogoboot_disk_wait_eq wait_result_at_def)
qed

lemma ticks_at_steps [simp]:
  "ticks_at (write8 p v h) j = ticks_at h j"
  "ticks_at (after_polls c n k h) j = ticks_at h (k + j)"
  "ticks_at (program_chunk c d s x h) j = ticks_at h j"
  by (simp_all add: ticks_at_def write8_def after_polls_def program_chunk_def Let_def add.assoc)

lemma TIMER_HZ_steps [simp]:
  "TIMER_HZ (write8 p v h) = TIMER_HZ h"
  "TIMER_HZ (after_polls c n k h) = TIMER_HZ h"
  "TIMER_HZ (program_chunk c d s x h) = TIMER_HZ h"
  "TIMER_HZ (poll_start c h) = TIMER_HZ h"
  "TIMER_HZ (mock st dat tk used) = 200"
  by (simp_all add: write8_def after_polls_def program_chunk_def poll_start_eq mock_def Let_def)

lemma request_steps_two:
  "request_steps 0 2 = [Program 0 2, WaitFor IDE_STATUS_READY, Command,
      WaitFor IDE_STATUS_DATAREQUEST, Sector, WaitFor IDE_STATUS_DATAREQUEST, Sector]"
  by (simp add: request_steps_def chunks_step chunks_done chunk_size_def chunk_steps_def
      sector_steps_def eval_nat_numeral)

text \<open>
  C2. A transfer carries out the steps of the request in order: for every chunk,
  program the registers, wait for READY, write the command, and for every sector of the
  chunk wait for DATAREQUEST and move the sector. For a transfer on a registered disk:
  \<^item> if the steps before some wait, whichever of the waits of the request it is, have
    been carried out with every wait among them succeeding, and that wait fails, then
    the call returns false with the memory as it was before that wait and the machine
    exactly as that wait left it, so that nothing is written, read or moved after the
    failed wait; the command bytes written during the call are those of the chunks
    begun before the failed wait, and the accesses to the data register those of the
    sectors moved before it;
  \<^item> the call returns false only in this way;
  \<^item> if every step is carried out and every wait succeeds, the call returns true;
  \<^item> in particular, if the READY wait of the first chunk fails, no command byte has
    been written, and if it succeeds and the first DATAREQUEST wait fails (for a request
    of any size, so also one of three chunks), exactly one command byte has been written;
  \<^item> on a machine whose tick counter keeps advancing the call returns.
  The result carries the flag, the memory and the machine, and no count of sectors.
\<close>

theorem failed_wait_aborts_transfer:
  assumes "0 \<le> disknr" and "disknr < gogoboot_disk_get_disk_count h"
    and "d = disk_table h (nat disknr)" and "c = ctrl d"
  shows
   "(\<forall>i bits b mi hi hf.
        i < length (request_steps start N) \<and> request_steps start N ! i = WaitFor bits
      \<and> run_steps c d is_write (take i (request_steps start N)) (buff, m, h) = Some (True, b, mi, hi)
      \<and> gogoboot_disk_wait c bits hi = Some (False, hf)
      \<longrightarrow> gogoboot_disk_readwrite disknr buff start N is_write m h = Some (False, mi, hf)
        \<and> writes_to (regp c command_reg) (io_trace hf)
            = writes_to (regp c command_reg) (io_trace h)
                @ replicate (length (filter (\<lambda>x. x = Command) (take i (request_steps start N))))
                    (rw_command is_write)
        \<and> data_accesses c hf
            = data_accesses c h
                + 256 * length (filter (\<lambda>x. x = Sector) (take i (request_steps start N))))
    \<and> (\<forall>m' h'. gogoboot_disk_readwrite disknr buff start N is_write m h = Some (False, m', h')
       \<longrightarrow> (\<exists>i bits b hi.
              i < length (request_steps start N) \<and> request_steps start N ! i = WaitFor bits
            \<and> run_steps c d is_write (take i (request_steps start N)) (buff, m, h)
                = Some (True, b, m', hi)
            \<and> gogoboot_disk_wait c bits hi = Some (False, h')))
    \<and> (\<forall>b m' h'. run_steps c d is_write (request_steps start N) (buff, m, h) = Some (True, b, m', h')
       \<longrightarrow> gogoboot_disk_readwrite disknr buff start N is_write m h = Some (True, m', h'))
    \<and> (0 < N \<and> gogoboot_disk_wait c IDE_STATUS_READY (program_chunk c d start N h) = Some (False, h2)
       \<longrightarrow> gogoboot_disk_readwrite disknr buff start N is_write m h = Some (False, m, h2)
         \<and> writes_to (regp c command_reg) (io_trace h2) = writes_to (regp c command_reg) (io_trace h))
    \<and> (0 < N \<and> gogoboot_disk_wait c IDE_STATUS_READY (program_chunk c d start N h) = Some (True, h2)
         \<and> gogoboot_disk_wait c IDE_STATUS_DATAREQUEST
              (write8 (regp c command_reg) (rw_command is_write) h2) = Some (False, h3)
       \<longrightarrow> gogoboot_disk_readwrite disknr buff start N is_write m h = Some (False, m, h3)
         \<and> writes_to (regp c command_reg) (io_trace h3)
             = writes_to (regp c command_reg) (io_trace h) @ [rw_command is_write])
    \<and> (clock_runs c h
       \<longrightarrow> (\<exists>ok m' h'. gogoboot_disk_readwrite disknr buff start N is_write m h = Some (ok, m', h')))"
proof (intro conjI allI impI)
  note rw = gogoboot_disk_readwrite_valid [OF assms(1,2), folded assms(3), folded assms(4)]
  {
    fix i bits b mi hi hf
    assume a: "i < length (request_steps start N) \<and> request_steps start N ! i = WaitFor bits
      \<and> run_steps c d is_write (take i (request_steps start N)) (buff, m, h) = Some (True, b, mi, hi)
      \<and> gogoboot_disk_wait c bits hi = Some (False, hf)"
    then have p: "i < length (request_steps start N)" "request_steps start N ! i = WaitFor bits"
      "run_steps c d is_write (take i (request_steps start N)) (buff, m, h) = Some (True, b, mi, hi)"
      "gogoboot_disk_wait c bits hi = Some (False, hf)"
      by blast+
    have "run_steps c d is_write (request_steps start N) (buff, m, h) = Some (False, b, mi, hf)"
      by (rule run_steps_wait_fails [OF p])
    then show "gogoboot_disk_readwrite disknr buff start N is_write m h = Some (False, mi, hf)"
      by (simp add: rw readwrite_loop_steps)
    have "writes_to (regp c command_reg) (io_trace hi)
            = writes_to (regp c command_reg) (io_trace h)
                @ replicate (length (filter (\<lambda>x. x = Command) (take i (request_steps start N))))
                    (rw_command is_write)"
      by (rule run_steps_commands [OF p(3)])
    then show "writes_to (regp c command_reg) (io_trace hf)
            = writes_to (regp c command_reg) (io_trace h)
                @ replicate (length (filter (\<lambda>x. x = Command) (take i (request_steps start N))))
                    (rw_command is_write)"
      using wait_frame [OF p(4), of "regp c command_reg"] by simp
    show "data_accesses c hf
            = data_accesses c h
                + 256 * length (filter (\<lambda>x. x = Sector) (take i (request_steps start N)))"
      using run_steps_data [OF p(3)] data_accesses_wait [OF p(4)] by simp
  }
  {
    fix m' h'
    assume "gogoboot_disk_readwrite disknr buff start N is_write m h = Some (False, m', h')"
    then obtain b where
      "run_steps c d is_write (request_steps start N) (buff, m, h) = Some (False, b, m', h')"
      by (auto simp: rw readwrite_loop_steps)
    from run_steps_False [OF this]
    show "\<exists>i bits b hi.
              i < length (request_steps start N) \<and> request_steps start N ! i = WaitFor bits
            \<and> run_steps c d is_write (take i (request_steps start N)) (buff, m, h)
                = Some (True, b, m', hi)
            \<and> gogoboot_disk_wait c bits hi = Some (False, h')"
      by blast
  }
  {
    fix b m' h'
    assume "run_steps c d is_write (request_steps start N) (buff, m, h) = Some (True, b, m', h')"
    then show "gogoboot_disk_readwrite disknr buff start N is_write m h = Some (True, m', h')"
      by (simp add: rw readwrite_loop_steps)
  }
  {
    assume a: "0 < N \<and> gogoboot_disk_wait c IDE_STATUS_READY (program_chunk c d start N h)
                 = Some (False, h2)"
    then show "gogoboot_disk_readwrite disknr buff start N is_write m h = Some (False, m, h2)"
      by (simp add: rw readwrite_loop_ready_fails)
    from a show "writes_to (regp c command_reg) (io_trace h2)
                   = writes_to (regp c command_reg) (io_trace h)"
      using wait_frame [of c IDE_STATUS_READY "program_chunk c d start N h" False h2
          "regp c command_reg"]
      by (simp add: program_chunk_writes)
  }
  {
    assume a: "0 < N \<and> gogoboot_disk_wait c IDE_STATUS_READY (program_chunk c d start N h)
                 = Some (True, h2)
               \<and> gogoboot_disk_wait c IDE_STATUS_DATAREQUEST
                    (write8 (regp c command_reg) (rw_command is_write) h2) = Some (False, h3)"
    have cs: "0 < chunk_size N" using a chunk_size_bounds by simp
    have tl: "transfer_loop c is_write buff (chunk_size N) m
                (write8 (regp c command_reg) (rw_command is_write) h2) = Some (False, buff, m, h3)"
      using a cs by (intro transfer_loop_drq_fails) simp_all
    show "gogoboot_disk_readwrite disknr buff start N is_write m h = Some (False, m, h3)"
      using a tl by (simp add: rw readwrite_loop_transfer_fails)
    show "writes_to (regp c command_reg) (io_trace h3)
            = writes_to (regp c command_reg) (io_trace h) @ [rw_command is_write]"
      using a wait_frame [of c IDE_STATUS_READY "program_chunk c d start N h" True h2
          "regp c command_reg"]
        wait_frame [of c IDE_STATUS_DATAREQUEST
          "write8 (regp c command_reg) (rw_command is_write) h2" False h3 "regp c command_reg"]
      by (simp add: program_chunk_writes write8_def)
  }
  {
    assume "clock_runs c h"
    from readwrite_loop_returns [OF this]
    show "\<exists>ok m' h'. gogoboot_disk_readwrite disknr buff start N is_write m h = Some (ok, m', h')"
      by (simp add: rw)
  }
qed

theorem failed_wait_aborts_transfer_witness:
  "\<not> fst (the (gogoboot_disk_readwrite 0 0 0 2 False zero_mem
            (mock (script [0x58, 0x58] 0x51) no_data (clock_every 1) 1)))
   \<and> writes_to (regp ide0 command_reg) (io_trace (snd (snd (the
        (gogoboot_disk_readwrite 0 0 0 2 False zero_mem
           (mock (script [0x58, 0x58] 0x51) no_data (clock_every 1) 1)))))) = [IDE_CMD_READ_SECTOR]
   \<and> data_accesses ide0 (snd (snd (the
        (gogoboot_disk_readwrite 0 0 0 2 False zero_mem
           (mock (script [0x58, 0x58] 0x51) no_data (clock_every 1) 1))))) = 256
   \<and> \<not> fst (the (gogoboot_disk_readwrite 0 0 0 600 False zero_mem
            (mock (script [] 0x40) no_data (clock_every 200) 1)))
   \<and> writes_to (regp ide0 command_reg) (io_trace (snd (snd (the
        (gogoboot_disk_readwrite 0 0 0 600 False zero_mem
           (mock (script [] 0x40) no_data (clock_every 200) 1)))))) = [IDE_CMD_READ_SECTOR]
   \<and> length (chunks 0 600) = 3"
proof -
  have first: "\<not> fst (the (gogoboot_disk_readwrite 0 0 0 2 False zero_mem
            (mock (script [0x58, 0x58] 0x51) no_data (clock_every 1) 1)))
   \<and> writes_to (regp ide0 command_reg) (io_trace (snd (snd (the
        (gogoboot_disk_readwrite 0 0 0 2 False zero_mem
           (mock (script [0x58, 0x58] 0x51) no_data (clock_every 1) 1)))))) = [IDE_CMD_READ_SECTOR]
   \<and> data_accesses ide0 (snd (snd (the
        (gogoboot_disk_readwrite 0 0 0 2 False zero_mem
           (mock (script [0x58, 0x58] 0x51) no_data (clock_every 1) 1))))) = 256"
  proof -
    define h where "h = mock (script [0x58, 0x58] 0x51) no_data (clock_every 1) 1"
    define d where "d = disk_table h (nat 0)"
    define h1 where "h1 = program_chunk ide0 d 0 2 h"
    define h2 where "h2 = after_polls ide0 (Suc 0) 0 (poll_start ide0 h1)"
    define x where "x = write8 (regp ide0 command_reg) (rw_command False) h2"
    define h3 where "h3 = after_polls ide0 (Suc 0) 0 (poll_start ide0 x)"
    define m4 where "m4 = fst (gogoboot_disk_read_sector_data ide0 0 zero_mem h3)"
    define h4 where "h4 = snd (gogoboot_disk_read_sector_data ide0 0 zero_mem h3)"
    define hf where "hf = after_polls ide0 (Suc 0) 0 (poll_start ide0 h4)"
    have v: "(0::int) \<le> 0" "0 < gogoboot_disk_get_disk_count h"
      by (simp_all add: gogoboot_disk_get_disk_count_def h_def mock_def)
    have c: "ide0 = ctrl d" by (simp add: d_def h_def mock_def ide0_def)
    have st: "status_at ide0 h j = script [0x58, 0x58] 0x51 j" for j
      by (simp add: h_def)
    have good: "wait_success IDE_STATUS_READY 0x58" "wait_success IDE_STATUS_DATAREQUEST 0x58"
      and bad: "\<not> wait_success IDE_STATUS_DATAREQUEST 0x51" "wait_error 0x51"
      by (simp_all add: wait_success_def wait_error_def IDE_STATUS_BUSY_def IDE_STATUS_ERROR_def
          IDE_STATUS_DATAREQUEST_def IDE_STATUS_READY_def)
    have s1: "status_at ide0 h1 j = status_at ide0 h j" for j
      by (simp add: h1_def)
    have s2: "status_at ide0 x j = status_at ide0 h (Suc j)" for j
      by (simp add: x_def h2_def status_at_shift s1)
    have s4: "status_at ide0 h4 j = status_at ide0 h (Suc (Suc j))" for j
      by (simp add: h4_def gogoboot_disk_read_sector_data_eq h3_def status_at_shift s2)
    have w1: "gogoboot_disk_wait ide0 IDE_STATUS_READY h1 = Some (True, h2)"
      unfolding h2_def by (rule wait_first_poll) (simp add: s1 st good)
    have w2: "gogoboot_disk_wait ide0 IDE_STATUS_DATAREQUEST x = Some (True, h3)"
      unfolding h3_def by (rule wait_first_poll) (simp add: s2 st good)
    have w3: "gogoboot_disk_wait ide0 IDE_STATUS_DATAREQUEST h4 = Some (False, hf)"
      unfolding hf_def by (rule wait_first_error) (simp_all add: s4 st bad)
    have pre: "run_steps ide0 d False (take 5 (request_steps 0 2)) (0, zero_mem, h)
                 = Some (True, 0 + 512, m4, h4)"
      unfolding request_steps_two
      by (simp add: w1 w2 h1_def [symmetric] x_def [symmetric] m4_def h4_def)
    have i: "5 < length (request_steps 0 2)"
      "request_steps 0 2 ! 5 = WaitFor IDE_STATUS_DATAREQUEST"
      by (simp_all add: request_steps_two)
    note T = failed_wait_aborts_transfer [OF v d_def c, of 0 2 False 0 zero_mem,
        THEN conjunct1, rule_format, of 5 IDE_STATUS_DATAREQUEST "0 + 512" m4 h4 hf,
        OF conjI [OF i(1) conjI [OF i(2) conjI [OF pre w3]]]]
    have t0: "writes_to (regp ide0 command_reg) (io_trace h) = []"
      by (simp add: h_def mock_def)
    have cnt: "length (filter (\<lambda>x. x = Command) (take 5 (request_steps 0 2))) = Suc 0"
      by (simp add: request_steps_two)
    have t1: "data_accesses ide0 h = 0"
      by (simp add: data_accesses_def h_def mock_def)
    have cnt2: "length (filter (\<lambda>x. x = Sector) (take 5 (request_steps 0 2))) = Suc 0"
      by (simp add: request_steps_two)
    have "\<not> fst (the (gogoboot_disk_readwrite 0 0 0 2 False zero_mem h))
        \<and> writes_to (regp ide0 command_reg) (io_trace (snd (snd (the
             (gogoboot_disk_readwrite 0 0 0 2 False zero_mem h))))) = [IDE_CMD_READ_SECTOR]
        \<and> data_accesses ide0 (snd (snd (the (gogoboot_disk_readwrite 0 0 0 2 False zero_mem h))))
             = 256"
      using T unfolding t0 t1 cnt cnt2 by (simp add: rw_command_def)
    then show ?thesis unfolding h_def .
  qed
  have second: "\<not> fst (the (gogoboot_disk_readwrite 0 0 0 600 False zero_mem
            (mock (script [] 0x40) no_data (clock_every 200) 1)))
   \<and> writes_to (regp ide0 command_reg) (io_trace (snd (snd (the
        (gogoboot_disk_readwrite 0 0 0 600 False zero_mem
           (mock (script [] 0x40) no_data (clock_every 200) 1)))))) = [IDE_CMD_READ_SECTOR]
   \<and> length (chunks 0 600) = 3"
  proof -
    let ?h = "mock (script [] 0x40) no_data (clock_every 200) 1"
    let ?d = "disk_table ?h (nat 0)"
    let ?h1 = "program_chunk ide0 ?d 0 600 ?h"
    let ?h2 = "after_polls ide0 (Suc 0) 0 (poll_start ide0 ?h1)"
    let ?x = "write8 (regp ide0 command_reg) (rw_command False) ?h2"
    let ?h3 = "printf (IDE_timeout (status_at ide0 (poll_start ide0 ?x) 3))
                 (after_polls ide0 (Suc 3) (Suc 3) (poll_start ide0 ?x))"
    have v: "(0::int) \<le> 0" "0 < gogoboot_disk_get_disk_count ?h"
      by (simp_all add: gogoboot_disk_get_disk_count_def mock_def)
    have c: "ide0 = ctrl ?d" by (simp add: mock_def ide0_def)
    have st: "\<not> wait_success IDE_STATUS_DATAREQUEST 0x40" "\<not> wait_error 0x40"
      "wait_success IDE_STATUS_READY 0x40"
      by (simp_all add: wait_success_def wait_error_def IDE_STATUS_BUSY_def IDE_STATUS_ERROR_def
          IDE_STATUS_DATAREQUEST_def IDE_STATUS_READY_def)
    have w1: "gogoboot_disk_wait ide0 IDE_STATUS_READY ?h1 = Some (True, ?h2)"
      by (rule wait_first_poll) (simp add: st)
    have dl: "wait_deadline ide0 ?x = 800"
      by (simp add: wait_deadline_eq)
    have w2: "gogoboot_disk_wait ide0 IDE_STATUS_DATAREQUEST ?x = Some (False, ?h3)"
    proof (rule wait_timeout_result)
      show "\<forall>j<3. \<not> decided_at ide0 IDE_STATUS_DATAREQUEST (wait_deadline ide0 ?x)
                      (poll_start ide0 ?x) j"
        unfolding dl
        by (auto simp: less_Suc_eq numeral_3_eq_3 decided_at_def status_at_shift st expired_at_def)
      show "\<not> wait_success IDE_STATUS_DATAREQUEST (status_at ide0 (poll_start ide0 ?x) 3)"
        by (simp add: status_at_shift st)
      show "\<not> wait_error (status_at ide0 (poll_start ide0 ?x) 3)"
        by (simp add: status_at_shift st)
      show "expired_at (wait_deadline ide0 ?x) (poll_start ide0 ?x) 3"
        unfolding dl by (simp add: expired_at_def numeral_3_eq_3)
    qed
    have n: "(0::int) < 600" by simp
    note T = failed_wait_aborts_transfer [OF v refl c, of 0 600 False 0 zero_mem ?h2 ?h3,
        THEN conjunct2, THEN conjunct2, THEN conjunct2, THEN conjunct2, THEN conjunct1,
        rule_format, OF conjI [OF n conjI [OF w1 w2]]]
    have t0: "writes_to (regp ide0 command_reg) (io_trace ?h) = []" by (simp add: mock_def)
    have cs: "length (chunks 0 600) = 3"
      by (simp add: chunks_step chunks_done chunk_size_def)
    show ?thesis
      using T cs unfolding t0 by (simp add: rw_command_def)
  qed
  from first second show ?thesis by (intro conjI) (elim conjE, assumption)+
qed

end
